theory Spec2Isabelle
  imports Main
begin

section \<open>Byte strings and the library functions the session code calls\<close>

text \<open>
  A Go \<^verbatim>\<open>string\<close> is a sequence of bytes; it is modelled as a \<^typ>\<open>string\<close> (a list of
  8-bit characters). The library functions below are Go's on strings of US-ASCII bytes
  (\<open>isASCII\<close>), the alphabet of SMTP command lines. On other strings Go's
  \<^verbatim>\<open>strings.TrimSpace\<close> also removes Unicode white space such as U+0085 and U+00A0, and
  \<^verbatim>\<open>strings.ToUpper\<close> maps runes through the Unicode tables and rewrites invalid bytes
  to U+FFFD, which can change the length; the embedding has no such tables and does
  not follow the code there. A statement that gives the value of \<^verbatim>\<open>Verb\<close> or \<^verbatim>\<open>Arg\<close>
  on a line therefore assumes \<open>isASCII\<close> of the line.
\<close>

definition isASCII :: "string \<Rightarrow> bool" where
  \<comment> \<open>every byte is below 0x80\<close>
  "isASCII s = list_all (\<lambda>x. (of_char x :: nat) < 128) s"

definition CRLF :: string where
  "CRLF = [CHR 0x0D, CHR 0x0A]"

definition LF :: char where
  "LF = CHR 0x0A"

definition isSpace :: "char \<Rightarrow> bool" where
  \<comment> \<open>the ASCII white space of Go: tab, line feed, vertical tab, form feed, carriage return, space\<close>
  "isSpace c = (c = CHR 0x09 \<or> c = CHR 0x0A \<or> c = CHR 0x0B \<or> c = CHR 0x0C \<or> c = CHR 0x0D \<or> c = CHR 0x20)"

definition TrimSpace :: "string \<Rightarrow> string" where
  \<comment> \<open>\<^verbatim>\<open>strings.TrimSpace\<close> on US-ASCII strings\<close>
  "TrimSpace s = rev (dropWhile isSpace (rev (dropWhile isSpace s)))"

definition inRange :: "char \<Rightarrow> char \<Rightarrow> char \<Rightarrow> bool" where
  \<comment> \<open>\<open>lo \<le> c \<le> hi\<close> on byte values\<close>
  "inRange lo hi c = ((of_char lo :: nat) \<le> of_char c \<and> (of_char c :: nat) \<le> of_char hi)"

definition upper :: "char \<Rightarrow> char" where
  "upper c = (if inRange CHR ''a'' CHR ''z'' c then char_of ((of_char c :: nat) - 32) else c)"

definition ToUpper :: "string \<Rightarrow> string" where
  \<comment> \<open>\<^verbatim>\<open>strings.ToUpper\<close> on US-ASCII strings\<close>
  "ToUpper s = map upper s"

definition HasSuffix :: "string \<Rightarrow> string \<Rightarrow> bool" where
  "HasSuffix s suf = (length suf \<le> length s \<and> drop (length s - length suf) s = suf)"

fun Index :: "string \<Rightarrow> char \<Rightarrow> int" where
  \<comment> \<open>\<^verbatim>\<open>strings.Index\<close> for a one-byte needle: the first position of the byte, or -1\<close>
  "Index [] c = - 1"
| "Index (x # xs) c =
     (if x = c then 0 else (let i = Index xs c in if i < 0 then - 1 else i + 1))"

fun Split :: "string \<Rightarrow> char \<Rightarrow> string list" where
  \<comment> \<open>\<^verbatim>\<open>strings.Split\<close> for a one-byte separator; the empty string splits into one empty field\<close>
  "Split [] sep = [[]]"
| "Split (x # xs) sep =
     (if x = sep then [] # Split xs sep
      else (case Split xs sep of [] \<Rightarrow> [[x]] | y # ys \<Rightarrow> (x # y) # ys))"

section \<open>Regular expressions\<close>

text \<open>
  The four patterns of the source are values of a small regular-expression syntax. The
  matcher follows Go's \<^verbatim>\<open>regexp\<close> package: a match starts as far left as possible, and
  among the matches starting there it is the one a backtracking search finds first
  (repetitions are greedy). \<open>ms r s\<close> lists, in the order of that search, what is left of
  \<open>s\<close> after each way of matching \<open>r\<close> at its start. A repetition goes round again only
  after a round that consumed something, as the search of the library does; in the
  patterns of the source every round consumes at least one byte. The patterns are ASCII,
  so matching bytes is matching Go's runes.
\<close>

datatype regex =
    Eps
  | Lit char
  | Dot
  | Cls "(char \<times> char) list"
  | Seq regex regex
  | Alt regex regex
  | Star regex

definition inClass :: "(char \<times> char) list \<Rightarrow> char \<Rightarrow> bool" where
  "inClass rs c = list_ex (\<lambda>(lo, hi). inRange lo hi c) rs"

function ms :: "regex \<Rightarrow> string \<Rightarrow> string list" where
  "ms Eps s = [s]"
| "ms (Lit c) s = (case s of [] \<Rightarrow> [] | x # xs \<Rightarrow> if x = c then [xs] else [])"
| "ms Dot s = (case s of [] \<Rightarrow> [] | x # xs \<Rightarrow> if x \<noteq> LF then [xs] else [])"
| "ms (Cls rs) s = (case s of [] \<Rightarrow> [] | x # xs \<Rightarrow> if inClass rs x then [xs] else [])"
| "ms (Seq a b) s = concat (map (ms b) (ms a s))"
| "ms (Alt a b) s = ms a s @ ms b s"
| "ms (Star r) s =
     concat (map (\<lambda>t. if length t < length s then ms (Star r) t else []) (ms r s)) @ [s]"
  by pat_completeness auto
termination
  by (relation "inv_image (less_than <*lex*> less_than) (\<lambda>(r, s). (size r, length s))") auto

definition Plus :: "regex \<Rightarrow> regex" where
  \<comment> \<open>\<open>r+\<close>\<close>
  "Plus r = Seq r (Star r)"

definition Opt :: "regex \<Rightarrow> regex" where
  \<comment> \<open>\<open>r?\<close>, preferring one occurrence\<close>
  "Opt r = Alt r Eps"

definition AtLeast2 :: "regex \<Rightarrow> regex" where
  \<comment> \<open>\<open>r{2,}\<close>\<close>
  "AtLeast2 r = Seq r (Seq r (Star r))"

fun MatchString :: "regex \<Rightarrow> string \<Rightarrow> bool" where
  \<comment> \<open>\<^verbatim>\<open>MatchString\<close>: some substring matches\<close>
  "MatchString r [] = (ms r [] \<noteq> [])"
| "MatchString r (x # xs) = (ms r (x # xs) \<noteq> [] \<or> MatchString r xs)"

fun FindString :: "regex \<Rightarrow> string \<Rightarrow> string" where
  \<comment> \<open>\<^verbatim>\<open>FindString\<close>: the text of the leftmost match, or the empty string\<close>
  "FindString r [] = []"
| "FindString r (x # xs) =
     (case ms r (x # xs) of
        [] \<Rightarrow> FindString r xs
      | t # _ \<Rightarrow> take (length (x # xs) - length t) (x # xs))"


text \<open>
  What a pattern matches, as a set of strings. The matcher is checked against it below
  (\<open>ms_rests\<close>, \<open>MatchString_iff\<close>).
\<close>

definition star :: "string set \<Rightarrow> string set" where
  "star L = {concat ws |ws. set ws \<subseteq> L}"

fun lang :: "regex \<Rightarrow> string set" where
  "lang Eps = {[]}"
| "lang (Lit c) = {[c]}"
| "lang Dot = {[x] |x. x \<noteq> LF}"
| "lang (Cls rs) = {[x] |x. inClass rs x}"
| "lang (Seq a b) = {u @ v |u v. u \<in> lang a \<and> v \<in> lang b}"
| "lang (Alt a b) = lang a \<union> lang b"
| "lang (Star r) = star (lang r)"

definition rests :: "regex \<Rightarrow> string \<Rightarrow> string set" where
  \<comment> \<open>what can be left of \<open>s\<close> after a match of \<open>r\<close> at its start\<close>
  "rests r s = {v. \<exists>u. u \<in> lang r \<and> s = u @ v}"

subsection \<open>The predefined patterns\<close>

definition word :: regex where
  \<comment> \<open>\<^verbatim>\<open>[a-zA-Z0-9._-]\<close>\<close>
  "word = Cls [(CHR ''a'', CHR ''z''), (CHR ''A'', CHR ''Z''), (CHR ''0'', CHR ''9''),
               (CHR ''.'', CHR ''.''), (CHR ''_'', CHR ''_''), (CHR ''-'', CHR ''-'')]"

definition alpha :: regex where
  \<comment> \<open>\<^verbatim>\<open>[a-zA-Z]\<close>\<close>
  "alpha = Cls [(CHR ''a'', CHR ''z''), (CHR ''A'', CHR ''Z'')]"

definition domain :: regex where
  \<comment> \<open>\<^verbatim>\<open>(?:[a-zA-Z0-9._-]+\.)+[a-zA-Z]{2,}\<close>\<close>
  "domain = Seq (Plus (Seq (Plus word) (Lit CHR ''.''))) (AtLeast2 alpha)"

definition rArgSyntax :: regex where
  \<comment> \<open>\<^verbatim>\<open><(.+)>\<close>\<close>
  "rArgSyntax = Seq (Lit CHR ''<'') (Seq (Plus Dot) (Lit CHR ''>''))"

definition rMailAddr :: regex where
  \<comment> \<open>\<^verbatim>\<open>[a-zA-Z0-9._-]+@(?:[a-zA-Z0-9._-]+\.)+[a-zA-Z]{2,}\<close>\<close>
  "rMailAddr = Seq (Plus word) (Seq (Lit CHR ''@'') domain)"

definition rRcptArg :: regex where
  \<comment> \<open>\<^verbatim>\<open><(?:@(?:[a-zA-Z0-9._-]+\.)+[a-zA-Z]{2,},?)*:?[a-zA-Z0-9._-]+@(?:[a-zA-Z0-9._-]+\.)+[a-zA-Z]{2,}>\<close>\<close>
  "rRcptArg =
     Seq (Lit CHR ''<'')
      (Seq (Star (Seq (Lit CHR ''@'') (Seq domain (Opt (Lit CHR '','')))))
        (Seq (Opt (Lit CHR '':''))
          (Seq (Plus word) (Seq (Lit CHR ''@'') (Seq domain (Lit CHR ''>''))))))"

definition rMailArg :: regex where
  \<comment> \<open>\<^verbatim>\<open><[a-zA-Z0-9._-]+@(?:[a-zA-Z0-9._-]+\.)+[a-zA-Z]{2,}>\<close>\<close>
  "rMailArg = Seq (Lit CHR ''<'') (Seq (Plus word) (Seq (Lit CHR ''@'') (Seq domain (Lit CHR ''>''))))"

section \<open>Replies and errors\<close>

definition REPLY_220 :: string where "REPLY_220 = ''220 <host> Maillennia ESMTP ready''"
definition REPLY_221 :: string where "REPLY_221 = ''221 2.0.0 Bye''"
definition REPLY_250 :: string where "REPLY_250 = ''250 2.0.0 OK''"
definition REPLY_250_RCPT :: string where "REPLY_250_RCPT = ''250 2.1.5 OK''"
definition REPLY_354 :: string where "REPLY_354 = ''354 Go ahead''"
definition REPLY_421 :: string where "REPLY_421 = ''421 4.4.2 Bad connection''"
definition REPLY_453 :: string where "REPLY_453 = ''453 5.3.2 System not accepting network message''"
definition REPLY_503 :: string where "REPLY_503 = ''503 5.5.1 Invalid command''"

datatype error =
    ehloFirstErr
  | badSeqErr
  | syntaxErr
  | invalidCommandArgErr
  | invalidRcptEmailErr
  | emailNotExistErr

fun Error :: "error \<Rightarrow> string" where
  \<comment> \<open>the text of each error value, \<^verbatim>\<open>err.Error()\<close>\<close>
  "Error ehloFirstErr = ''503 5.5.1 HELO/EHLO first''"
| "Error badSeqErr = ''503 5.5.1 Bad sequence of commands''"
| "Error syntaxErr = ''555 5.5.2 Syntax error''"
| "Error invalidCommandArgErr = ''501 5.5.4 Invalid command arguments''"
| "Error invalidRcptEmailErr =
     ''553-5.1.2 Invalid recipient email address.'' @ CRLF @
     ''553-5.1.2 Please Check for any spelling errors'' @ CRLF @
     ''553-5.1.2 make sure before & after recipient email address'' @ CRLF @
     ''553 5.1.2 doesn't contain periods, spaces, or other punctuation.''"
| "Error emailNotExistErr =
     ''550-5.1.1 Recipient email address doesn't exist.'' @ CRLF @
     ''550-5.1.1 Please Check for any spelling errors'' @ CRLF @
     ''550-5.1.1 make sure before & after recipient email address'' @ CRLF @
     ''550 5.1.1 doesn't contain periods, spaces, or other punctuation.''"

section \<open>Commands\<close>

text \<open>
  A \<^verbatim>\<open>command\<close> is the raw line. Each \<^verbatim>\<open>Valid...\<close> method returns Go's pair
  \<^verbatim>\<open>(bool, error)\<close>, with \<open>None\<close> for \<^verbatim>\<open>nil\<close>.
\<close>

type_synonym command = string

definition Verb :: "command \<Rightarrow> string" where
  "Verb c =
     (if c = CRLF then CRLF
      else let verb = TrimSpace c in
        if length verb = 4 then ToUpper verb
        else if length verb > 4 then
          (let i = Index verb CHR '':'' in
            if i > 0 then ToUpper (take (nat (i + 1)) verb)
            else ToUpper (hd (Split verb CHR '' '')))
        else [])"

definition Arg :: "command \<Rightarrow> string" where
  \<comment> \<open>on a US-ASCII line \<^verbatim>\<open>line[i:]\<close> is in range (\<open>Verb_length\<close>); on other lines the
      upper-cased verb of the code can be longer than the line, and the slice panics\<close>
  "Arg c =
     (if c = CRLF then []
      else let line = c; i = length (Verb c) in TrimSpace (drop i line))"

definition ValidLine :: "command \<Rightarrow> bool \<times> error option" where
  "ValidLine c =
     (if c = [] then (False, Some syntaxErr)
      else if \<not> HasSuffix c CRLF then (False, Some syntaxErr)
      else (True, None))"

definition ValidHello :: "command \<Rightarrow> bool \<times> error option" where
  "ValidHello c =
     (let args = Split (Arg c) CHR '' '' in
      if Arg c = [] \<or> length args > 1 then (False, Some invalidCommandArgErr)
      else (True, None))"

definition ValidMail :: "command \<Rightarrow> bool \<times> error option" where
  "ValidMail c =
     (if Arg c = [] then (False, Some syntaxErr)
      else if \<not> MatchString rMailArg (Arg c) then (False, Some invalidCommandArgErr)
      else (True, None))"

definition ValidRcpt :: "command \<Rightarrow> bool \<times> error option" where
  "ValidRcpt c =
     (if Arg c = [] \<or> \<not> MatchString rArgSyntax (Arg c) then (False, Some syntaxErr)
      else if \<not> MatchString rRcptArg (Arg c) then (False, Some invalidRcptEmailErr)
      else (True, None))"

definition ValidData :: "command \<Rightarrow> bool \<times> error option" where
  "ValidData c = (if Arg c \<noteq> [] then (False, Some syntaxErr) else (True, None))"

definition ValidQuit :: "command \<Rightarrow> bool \<times> error option" where
  "ValidQuit c =
     (if Verb c = ''QUIT'' \<and> Arg c \<noteq> [] then (False, Some invalidCommandArgErr)
      else (True, None))"

definition EmailAddress :: "command \<Rightarrow> string" where
  "EmailAddress c = FindString rMailAddr (Arg c)"


section \<open>Envelope and session\<close>

record Envelope =
  OriginatorAddress :: string
  RecipientAddress :: "string list"
  Extension :: string

definition NewEnvelope :: Envelope where
  "NewEnvelope = \<lparr>OriginatorAddress = [], RecipientAddress = [], Extension = []\<rparr>"

record SessionValidity =
  HeloFirst :: bool
  MailFirst :: bool
  RcptFirst :: bool

text \<open>
  What the session does to its surroundings is recorded in the session value: \<open>wire\<close> is
  what \<^verbatim>\<open>Reply\<close> wrote to the connection, one entry for each \<^verbatim>\<open>Transmit\<close>, \<open>logs\<close> is
  what went to the local log, \<open>nreads\<close> counts the calls of \<^verbatim>\<open>ReadString\<close>, \<open>ConnClosed\<close>
  the calls of \<^verbatim>\<open>Conn.Close\<close> and \<open>WgDone\<close> the calls of \<^verbatim>\<open>Wg.Done\<close>.
\<close>

record Session =
  Validity :: SessionValidity
  wire :: "string list"
  logs :: "string list"
  nreads :: nat
  ConnClosed :: nat
  WgDone :: nat

text \<open>
  What the peer, the transport and the server do is fixed beforehand in a \<open>Conn\<close>:
  \<open>reads n\<close> is the data the \<open>n\<close>-th \<^verbatim>\<open>ReadString('\n')\<close> returns (it returns an error
  exactly when that data does not end in the delimiter), \<open>flushErr n\<close> says whether the
  \<open>n\<close>-th \<^verbatim>\<open>Flush\<close> fails, and \<open>stopped n\<close> whether \<^verbatim>\<open>ChanClosed\<close> delivers when it is
  polled after the \<open>n\<close>-th read.
\<close>

record Conn =
  reads :: "nat \<Rightarrow> string"
  flushErr :: "nat \<Rightarrow> bool"
  stopped :: "nat \<Rightarrow> bool"

definition ReadString :: "Conn \<Rightarrow> nat \<Rightarrow> string \<times> bool" where
  \<comment> \<open>the data of the \<open>n\<close>-th read, and whether it came with an error\<close>
  "ReadString env n = (reads env n, reads env n = [] \<or> last (reads env n) \<noteq> LF)"

definition New :: Session where
  "New = \<lparr>Validity = \<lparr>HeloFirst = False, MailFirst = False, RcptFirst = False\<rparr>,
          wire = [], logs = [], nreads = 0, ConnClosed = 0, WgDone = 0\<rparr>"

definition Transmit :: "Conn \<Rightarrow> Session \<Rightarrow> string \<Rightarrow> Session \<times> bool" where
  \<comment> \<open>the text goes to the buffer, then the flush succeeds or fails; the second
      component: \<^verbatim>\<open>Transmit\<close> returned an error\<close>
  "Transmit env s str = (s\<lparr>wire := wire s @ [str @ CRLF]\<rparr>, flushErr env (length (wire s)))"

definition TransmitErr :: "Conn \<Rightarrow> Session \<Rightarrow> error \<Rightarrow> Session \<times> bool" where
  "TransmitErr env s err = (s\<lparr>wire := wire s @ [Error err @ CRLF]\<rparr>, flushErr env (length (wire s)))"

definition Println :: "Session \<Rightarrow> string \<Rightarrow> Session" where
  "Println s str = s\<lparr>logs := logs s @ [str]\<rparr>"

definition Close :: "Session \<Rightarrow> Session" where
  "Close s = s\<lparr>WgDone := Suc (WgDone s), ConnClosed := Suc (ConnClosed s)\<rparr>"

definition Valid :: "SessionValidity \<Rightarrow> command \<Rightarrow> SessionValidity \<times> bool \<times> error option" where
  "Valid v c =
     (case ValidLine c of
        (_, Some err) \<Rightarrow> (v, False, Some err)
      | (_, None) \<Rightarrow>
     if Verb c = ''EHLO'' \<or> Verb c = ''HELO'' then
       (case ValidHello c of
          (_, Some err) \<Rightarrow> (v, False, Some err)
        | (_, None) \<Rightarrow> (v\<lparr>HeloFirst := True\<rparr>, True, None))
     else if Verb c = ''MAIL FROM:'' then
       (if \<not> HeloFirst v then (v, False, Some ehloFirstErr)
        else case ValidMail c of
          (_, Some err) \<Rightarrow> (v, False, Some err)
        | (_, None) \<Rightarrow> (v\<lparr>MailFirst := True\<rparr>, True, None))
     else if Verb c = ''RCPT TO:'' then
       (if \<not> HeloFirst v then (v, False, Some ehloFirstErr)
        else if \<not> MailFirst v then (v, False, Some badSeqErr)
        else case ValidRcpt c of
          (_, Some err) \<Rightarrow> (v, False, Some err)
        | (_, None) \<Rightarrow> (v\<lparr>RcptFirst := True\<rparr>, True, None))
     else if Verb c = ''DATA'' then
       (if \<not> HeloFirst v then (v, False, Some ehloFirstErr)
        else if \<not> MailFirst v \<or> \<not> RcptFirst v then (v, False, Some badSeqErr)
        else case ValidData c of
          (_, Some err) \<Rightarrow> (v, False, Some err)
        | (_, None) \<Rightarrow> (v, True, None))
     else if Verb c = ''QUIT'' then
       (case ValidQuit c of
          (_, Some err) \<Rightarrow> (v, False, Some err)
        | (_, None) \<Rightarrow> (v, True, None))
     else (v, True, None))"

definition CheckChanClosed :: "Conn \<Rightarrow> nat \<Rightarrow> Session \<Rightarrow> Session \<times> bool" where
  \<comment> \<open>the poll after the \<open>n\<close>-th read; the error of the 453 reply is dropped\<close>
  "CheckChanClosed env n s =
     (if stopped env n then (fst (Transmit env s REPLY_453), True) else (s, False))"

datatype flow = Continue | Return

definition reply :: "Conn \<Rightarrow> Session \<Rightarrow> Envelope \<Rightarrow> string \<Rightarrow> flow \<times> Session \<times> Envelope" where
  \<comment> \<open>a case of the switch that transmits and returns on an error\<close>
  "reply env s envl str =
     (case Transmit env s str of
        (s', True) \<Rightarrow> (Return, s', envl)
      | (s', False) \<Rightarrow> (Continue, s', envl))"

definition dispatch :: "Conn \<Rightarrow> Session \<Rightarrow> Envelope \<Rightarrow> command \<Rightarrow> flow \<times> Session \<times> Envelope" where
  \<comment> \<open>the \<^verbatim>\<open>switch c.Verb()\<close> of \<^verbatim>\<open>Serve\<close>\<close>
  "dispatch env s envl c =
     (let verb = Verb c in
      if verb = ''HELO'' then reply env s envl REPLY_250
      else if verb = ''EHLO'' then reply env s envl REPLY_250
      else if verb = ''MAIL FROM:'' then
        reply env s (envl\<lparr>OriginatorAddress := EmailAddress c\<rparr>) REPLY_250
      else if verb = ''RCPT TO:'' then
        reply env s (envl\<lparr>RecipientAddress := RecipientAddress envl @ [EmailAddress c]\<rparr>) REPLY_250_RCPT
      else if verb = ''DATA'' then reply env s envl REPLY_354
      else if verb = CRLF then (Continue, Println s ''enter'', envl)
      else if verb = ''RSET'' then (Continue, Println s verb, envl)
      else if verb = ''QUIT'' then (Return, fst (Transmit env s REPLY_221), envl)
      else if verb = ''NOOP'' then (Continue, Println s verb, envl)
      else if verb = ''HELP'' then (Continue, Println s verb, envl)
      else if verb = ''EXPN'' then (Continue, Println s verb, envl)
      else if verb = ''VRFY'' then (Continue, Println s verb, envl)
      else reply env s envl REPLY_503)"

definition iteration :: "Conn \<Rightarrow> Session \<times> Envelope \<Rightarrow> flow \<times> Session \<times> Envelope" where
  \<comment> \<open>one pass through the body of the \<^verbatim>\<open>for\<close> loop of \<^verbatim>\<open>Serve\<close>\<close>
  "iteration env se =
     (let (s, envl) = se;
          n = nreads s;
          (line, readErr) = ReadString env n;
          s = s\<lparr>nreads := Suc n\<rparr>;
          (s, e) = (if readErr then Transmit env s REPLY_453 else (s, False))
      in if e then (Return, s, envl)
      else
        let (s, chanClosed) = CheckChanClosed env n s
        in if chanClosed then (Return, s, envl)
        else
          let c = line;
              (v, valid, err) = Valid (Validity s) c;
              s = s\<lparr>Validity := v\<rparr>
          in case (valid, err) of
               (False, Some err) \<Rightarrow>
                 (case TransmitErr env s err of
                    (s', True) \<Rightarrow> (Return, s', envl)
                  | (s', False) \<Rightarrow> (Continue, s', envl))
             | _ \<Rightarrow> dispatch env s envl c)"

fun loop :: "nat \<Rightarrow> Conn \<Rightarrow> Session \<times> Envelope \<Rightarrow> (Session \<times> Envelope) option" where
  \<comment> \<open>the \<^verbatim>\<open>for\<close> loop, given a number of iterations it may take; \<open>None\<close>: still running\<close>
  "loop 0 env se = None"
| "loop (Suc k) env se =
     (case iteration env se of
        (Return, se') \<Rightarrow> Some se'
      | (Continue, se') \<Rightarrow> loop k env se')"

definition Serve :: "nat \<Rightarrow> Conn \<Rightarrow> Session \<Rightarrow> Session option" where
  \<comment> \<open>\<^verbatim>\<open>defer s.Close()\<close> runs on every return\<close>
  "Serve k env s =
     (case Transmit env s REPLY_220 of
        (s', True) \<Rightarrow> Some (Close s')
      | (s', False) \<Rightarrow>
          (case loop k env (s', NewEnvelope) of
             None \<Rightarrow> None
           | Some (s'', envl) \<Rightarrow> Some (Close s'')))"


section \<open>Sequences of commands, and the inputs of the examples\<close>

definition run :: "SessionValidity \<Rightarrow> command list \<Rightarrow> SessionValidity" where
  \<comment> \<open>the flags after \<^verbatim>\<open>Valid\<close> has seen the lines \<open>cs\<close>, one after the other\<close>
  "run v cs = foldl (\<lambda>v c. fst (Valid v c)) v cs"

definition chain :: "SessionValidity \<Rightarrow> bool" where
  "chain v = ((RcptFirst v \<longrightarrow> MailFirst v) \<and> (MailFirst v \<longrightarrow> HeloFirst v))"

definition cEHLO :: command where "cEHLO = ''EHLO host'' @ CRLF"
definition cMAIL :: command where "cMAIL = ''MAIL FROM:<a@b.com>'' @ CRLF"
definition cRCPT :: command where "cRCPT = ''RCPT TO:<c@d.com>'' @ CRLF"
definition cDATA :: command where "cDATA = ''DATA'' @ CRLF"
definition cQUIT :: command where "cQUIT = ''QUIT'' @ CRLF"
definition cRSET :: command where "cRSET = ''RSET'' @ CRLF"
definition cNOOP :: command where "cNOOP = ''noop some-string'' @ CRLF"

definition script :: "command list" where
  "script = [cEHLO, cMAIL, cRCPT, cDATA, cQUIT]"

definition peer :: "command list \<Rightarrow> Conn" where
  \<comment> \<open>a peer that sends the lines and closes; no write fails, no shutdown\<close>
  "peer ls = \<lparr>reads = (\<lambda>n. if n < length ls then ls ! n else []),
               flushErr = (\<lambda>n. False), stopped = (\<lambda>n. False)\<rparr>"

definition envStop :: Conn where
  \<comment> \<open>an unterminated line, and the shutdown signal raised\<close>
  "envStop = \<lparr>reads = (\<lambda>n. ''QUIT''), flushErr = (\<lambda>n. False), stopped = (\<lambda>n. True)\<rparr>"

definition greeted :: SessionValidity where
  "greeted = \<lparr>HeloFirst = True, MailFirst = False, RcptFirst = False\<rparr>"

definition ready :: SessionValidity where
  "ready = \<lparr>HeloFirst = True, MailFirst = True, RcptFirst = True\<rparr>"

section \<open>The parser and the validator as the specification words them\<close>

definition Verb_spec :: "command \<Rightarrow> string" where
  \<comment> \<open>the verb as the specification describes it: any colon, and white space ends a token\<close>
  "Verb_spec c =
     (if c = CRLF then CRLF
      else let t = TrimSpace c in
        if length t = 4 then ToUpper t
        else if length t > 4 then
          (if CHR '':'' \<in> set t then ToUpper (takeWhile (\<lambda>x. x \<noteq> CHR '':'') t @ '':'')
           else ToUpper (takeWhile (\<lambda>x. \<not> isSpace x) t))
        else [])"

definition ValidMail_spec :: "command \<Rightarrow> bool \<times> error option" where
  \<comment> \<open>the sender check as the specification describes it: a syntax error when the
      angle brackets are absent, invalid arguments when what they enclose is malformed\<close>
  "ValidMail_spec c =
     (if \<not> MatchString rArgSyntax (Arg c) then (False, Some syntaxErr)
      else if \<not> MatchString rMailArg (Arg c) then (False, Some invalidCommandArgErr)
      else (True, None))"

definition BadSequence :: "error \<Rightarrow> bool" where
  \<comment> \<open>the two errors for a verb that comes before the verbs it needs, both ``503 5.5.1''\<close>
  "BadSequence e = (e = ehloFirstErr \<or> e = badSeqErr)"

definition cBARE :: command where
  \<comment> \<open>a line of the repository's own test of \<^verbatim>\<open>ValidMail\<close>\<close>
  "cBARE = ''MAIL FROM: some invalid argument'' @ CRLF"

section \<open>Facts about the library functions\<close>

lemma HasSuffix_CRLF_last: "HasSuffix c CRLF \<Longrightarrow> c \<noteq> [] \<and> last c = LF"
proof -
  assume h: "HasSuffix c CRLF"
  then have d: "drop (length c - length CRLF) c = CRLF"
    by (simp add: HasSuffix_def)
  have "c = take (length c - length CRLF) c @ CRLF"
    using d by (metis append_take_drop_id)
  then have "last c = last CRLF" and "c \<noteq> []"
    by (metis last_appendR CRLF_def list.distinct(1),
        metis append_is_Nil_conv CRLF_def list.distinct(1))
  then show ?thesis by (simp add: CRLF_def LF_def)
qed

lemma ReadString_ok: "HasSuffix (reads env n) CRLF \<Longrightarrow> ReadString env n = (reads env n, False)"
  using HasSuffix_CRLF_last[of "reads env n"] by (simp add: ReadString_def)

lemma ReadString_err: "snd (ReadString env n) \<Longrightarrow> \<not> HasSuffix (fst (ReadString env n)) CRLF"
  using HasSuffix_CRLF_last[of "reads env n"] by (auto simp: ReadString_def)

lemma Index_nonneg_iff: "0 \<le> Index s c \<longleftrightarrow> c \<in> set s"
  by (induction s) (auto simp: Let_def)

lemma Index_pos_iff: "0 < Index s c \<longleftrightarrow> c \<in> set s \<and> hd s \<noteq> c"
proof (cases s)
  case Nil
  then show ?thesis by simp
next
  case (Cons x xs)
  then show ?thesis using Index_nonneg_iff[of xs c] by (auto simp: Let_def)
qed

lemma take_Index:
  "c \<in> set s \<Longrightarrow> take (nat (Index s c + 1)) s = takeWhile (\<lambda>x. x \<noteq> c) s @ [c]"
proof (induction s)
  case Nil
  then show ?case by simp
next
  case (Cons x xs)
  show ?case
  proof (cases "x = c")
    case True
    then show ?thesis by simp
  next
    case False
    then have m: "c \<in> set xs" using Cons.prems by simp
    then have nn: "0 \<le> Index xs c" using Index_nonneg_iff by simp
    then have "nat (Index xs c + 1 + 1) = Suc (nat (Index xs c + 1))" by simp
    then show ?thesis using False nn Cons.IH[OF m] by (simp add: Let_def)
  qed
qed

lemma Split_nonempty: "Split s sep \<noteq> []"
  by (induction s) (auto split: list.splits)

lemma hd_Split: "hd (Split s sep) = takeWhile (\<lambda>x. x \<noteq> sep) s"
proof (induction s)
  case Nil
  then show ?case by simp
next
  case (Cons x xs)
  then show ?case using Split_nonempty[of xs sep] by (auto split: list.splits)
qed

lemma length_TrimSpace: "length (TrimSpace s) \<le> length s"
proof -
  have "length (dropWhile isSpace (rev (dropWhile isSpace s))) \<le> length (rev (dropWhile isSpace s))"
    by (rule length_dropWhile_le)
  also have "\<dots> \<le> length s" by (simp add: length_dropWhile_le)
  finally show ?thesis by (simp add: TrimSpace_def)
qed

lemma takeWhile_shorter: "\<exists>x\<in>set xs. \<not> P x \<Longrightarrow> length (takeWhile P xs) < length xs"
  by (induction xs) auto

subsection \<open>The matcher against the language of a pattern\<close>

declare ms.simps(7) [simp del]

lemma star_Nil: "[] \<in> star L"
proof -
  have "[] = concat []" "set [] \<subseteq> L" by simp_all
  then show ?thesis unfolding star_def by blast
qed

lemma star_step: "u \<in> L \<Longrightarrow> w \<in> star L \<Longrightarrow> u @ w \<in> star L"
proof -
  assume u: "u \<in> L" and "w \<in> star L"
  then obtain ws where ws: "w = concat ws" "set ws \<subseteq> L" unfolding star_def by blast
  have "u @ w = concat (u # ws)" "set (u # ws) \<subseteq> L" using u ws by simp_all
  then show ?thesis unfolding star_def by blast
qed

lemma star_concat: "set ws \<subseteq> L \<Longrightarrow> concat ws \<in> star L"
  unfolding star_def by blast

lemma star_cases:
  "w \<in> star L \<Longrightarrow> w = [] \<or> (\<exists>u v. u \<in> L \<and> u \<noteq> [] \<and> v \<in> star L \<and> w = u @ v)"
proof -
  assume "w \<in> star L"
  then obtain ws where ws: "w = concat ws" "set ws \<subseteq> L" unfolding star_def by blast
  then show ?thesis
  proof (induction ws arbitrary: w)
    case Nil
    then show ?case by simp
  next
    case (Cons x xs)
    show ?case
    proof (cases "x = []")
      case True
      then have "w = concat xs" "set xs \<subseteq> L" using Cons.prems by simp_all
      from Cons.IH[OF this] show ?thesis .
    next
      case False
      have "concat xs \<in> star L" using Cons.prems(2) star_concat[of xs L] by simp
      moreover have "x \<in> L" "w = x @ concat xs" using Cons.prems by simp_all
      ultimately show ?thesis using False by blast
    qed
  qed
qed

lemma rests_Star:
  "rests (Star r) s = {s} \<union> (\<Union>t \<in> {t \<in> rests r s. length t < length s}. rests (Star r) t)"
proof (intro set_eqI iffI)
  fix v assume "v \<in> rests (Star r) s"
  then obtain w where w: "w \<in> star (lang r)" "s = w @ v" unfolding rests_def by auto
  from star_cases[OF w(1)]
  show "v \<in> {s} \<union> (\<Union>t \<in> {t \<in> rests r s. length t < length s}. rests (Star r) t)"
  proof
    assume "w = []"
    then show ?thesis using w by simp
  next
    assume "\<exists>u x. u \<in> lang r \<and> u \<noteq> [] \<and> x \<in> star (lang r) \<and> w = u @ x"
    then obtain u x where ux: "u \<in> lang r" "u \<noteq> []" "x \<in> star (lang r)" "w = u @ x"
      by blast
    have 1: "x @ v \<in> rests r s" unfolding rests_def using ux w by auto
    have 2: "length (x @ v) < length s" using ux w by simp
    have 3: "v \<in> rests (Star r) (x @ v)" unfolding rests_def using ux by auto
    show ?thesis using 1 2 3 by blast
  qed
next
  fix v assume "v \<in> {s} \<union> (\<Union>t \<in> {t \<in> rests r s. length t < length s}. rests (Star r) t)"
  then consider "v = s" | t where "t \<in> rests r s" "v \<in> rests (Star r) t" by blast
  then show "v \<in> rests (Star r) s"
  proof cases
    case 1
    then show ?thesis unfolding rests_def using star_Nil[of "lang r"] by auto
  next
    case 2
    then obtain u where u: "u \<in> lang r" "s = u @ t" unfolding rests_def by blast
    from 2 obtain w where w: "w \<in> star (lang r)" "t = w @ v" unfolding rests_def by auto
    have "u @ w \<in> lang (Star r)" using star_step[OF u(1) w(1)] by simp
    moreover have "s = (u @ w) @ v" using u w by simp
    ultimately show ?thesis unfolding rests_def by blast
  qed
qed

lemma rests_Seq: "rests (Seq a b) s = (\<Union>t \<in> rests a s. rests b t)"
proof (intro set_eqI iffI)
  fix v assume "v \<in> rests (Seq a b) s"
  then obtain u1 u2 where u: "u1 \<in> lang a" "u2 \<in> lang b" "s = (u1 @ u2) @ v"
    unfolding rests_def by auto
  have "u2 @ v \<in> rests a s" "v \<in> rests b (u2 @ v)" unfolding rests_def using u by auto
  then show "v \<in> (\<Union>t \<in> rests a s. rests b t)" by blast
next
  fix v assume "v \<in> (\<Union>t \<in> rests a s. rests b t)"
  then obtain t where t: "t \<in> rests a s" "v \<in> rests b t" by blast
  then obtain u1 u2 where u: "u1 \<in> lang a" "s = u1 @ t" "u2 \<in> lang b" "t = u2 @ v"
    unfolding rests_def by blast
  have "u1 @ u2 \<in> lang (Seq a b)" "s = (u1 @ u2) @ v" using u by auto
  then show "v \<in> rests (Seq a b) s" unfolding rests_def by blast
qed

lemma ms_rests: "set (ms r s) = rests r s"
proof (induction r s rule: ms.induct)
  case (1 s)
  then show ?case by (auto simp: rests_def)
next
  case (2 c s)
  then show ?case by (cases s) (auto simp: rests_def)
next
  case (3 s)
  then show ?case by (cases s) (auto simp: rests_def)
next
  case (4 rs s)
  then show ?case by (cases s) (auto simp: rests_def)
next
  case (5 a b s)
  then show ?case by (simp add: rests_Seq)
next
  case (6 a b s)
  then show ?case by (auto simp: rests_def)
next
  case (7 r s)
  have "set (ms (Star r) s) =
      set (concat (map (\<lambda>t. if length t < length s then ms (Star r) t else []) (ms r s)) @ [s])"
    by (subst ms.simps(7)) (rule refl)
  also have "\<dots> = {s} \<union> (\<Union>t \<in> {t \<in> set (ms r s). length t < length s}. set (ms (Star r) t))"
    by auto
  also have "\<dots> = {s} \<union> (\<Union>t \<in> {t \<in> rests r s. length t < length s}. rests (Star r) t)"
    using 7 by auto
  also have "\<dots> = rests (Star r) s" using rests_Star[of r s] by simp
  finally show ?case .
qed

lemma ms_nonempty: "ms r s \<noteq> [] \<longleftrightarrow> (\<exists>w v. s = w @ v \<and> w \<in> lang r)"
proof -
  have "ms r s \<noteq> [] \<longleftrightarrow> set (ms r s) \<noteq> {}" by simp
  also have "\<dots> \<longleftrightarrow> rests r s \<noteq> {}" by (simp only: ms_rests)
  also have "\<dots> \<longleftrightarrow> (\<exists>w v. s = w @ v \<and> w \<in> lang r)" unfolding rests_def by blast
  finally show ?thesis .
qed

lemma MatchString_iff: "MatchString r s \<longleftrightarrow> (\<exists>u w v. s = u @ w @ v \<and> w \<in> lang r)"
proof (induction s)
  case Nil
  show ?case using ms_nonempty[of r "[]"] by simp
next
  case (Cons x xs)
  show ?case
  proof
    assume "MatchString r (x # xs)"
    then consider "ms r (x # xs) \<noteq> []" | "MatchString r xs" by auto
    then show "\<exists>u w v. x # xs = u @ w @ v \<and> w \<in> lang r"
    proof cases
      case 1
      then obtain w v where "x # xs = w @ v" "w \<in> lang r"
        using ms_nonempty[of r "x # xs"] by blast
      then have "x # xs = [] @ w @ v \<and> w \<in> lang r" by simp
      then show ?thesis by blast
    next
      case 2
      then obtain u w v where "xs = u @ w @ v" "w \<in> lang r" using Cons.IH by blast
      then have "x # xs = (x # u) @ w @ v \<and> w \<in> lang r" by simp
      then show ?thesis by blast
    qed
  next
    assume "\<exists>u w v. x # xs = u @ w @ v \<and> w \<in> lang r"
    then obtain u w v where uwv: "x # xs = u @ w @ v" "w \<in> lang r" by blast
    show "MatchString r (x # xs)"
    proof (cases u)
      case Nil
      then have "ms r (x # xs) \<noteq> []" using uwv ms_nonempty[of r "x # xs"] by auto
      then show ?thesis by simp
    next
      case (Cons y ys)
      then have "xs = ys @ w @ v" using uwv by simp
      then have "MatchString r xs" using uwv(2) Cons.IH by blast
      then show ?thesis by simp
    qed
  qed
qed

lemma lang_Seq_iff: "w \<in> lang (Seq a b) \<longleftrightarrow> (\<exists>u v. w = u @ v \<and> u \<in> lang a \<and> v \<in> lang b)"
  by auto

lemma lang_Lit_iff: "w \<in> lang (Lit c) \<longleftrightarrow> w = [c]"
  by simp

lemma lang_rMailArg:
  "w \<in> lang rMailArg \<longleftrightarrow>
     (\<exists>l d. w = ''<'' @ l @ ''@'' @ d @ ''>'' \<and> l \<in> lang (Plus word) \<and> d \<in> lang domain)"
proof
  assume "w \<in> lang rMailArg"
  then obtain a1 l a2 d a3 where "w = a1 @ l @ a2 @ d @ a3" "a1 = ''<''" "l \<in> lang (Plus word)"
     "a2 = ''@''" "d \<in> lang domain" "a3 = ''>''"
    unfolding rMailArg_def lang_Seq_iff lang_Lit_iff by blast
  then show "\<exists>l d. w = ''<'' @ l @ ''@'' @ d @ ''>'' \<and> l \<in> lang (Plus word) \<and> d \<in> lang domain"
    by blast
next
  assume "\<exists>l d. w = ''<'' @ l @ ''@'' @ d @ ''>'' \<and> l \<in> lang (Plus word) \<and> d \<in> lang domain"
  then obtain l d where "w = ''<'' @ l @ ''@'' @ d @ ''>''" "l \<in> lang (Plus word)" "d \<in> lang domain"
    by blast
  then show "w \<in> lang rMailArg"
    unfolding rMailArg_def lang_Seq_iff lang_Lit_iff by blast
qed

section \<open>Facts about commands\<close>

lemma Verb_unfold:
  "Verb c =
     (if c = CRLF then CRLF
      else if length (TrimSpace c) = 4 then ToUpper (TrimSpace c)
      else if length (TrimSpace c) > 4 then
        (if CHR '':'' \<in> set (TrimSpace c) \<and> hd (TrimSpace c) \<noteq> CHR '':''
         then ToUpper (takeWhile (\<lambda>x. x \<noteq> CHR '':'') (TrimSpace c) @ '':'')
         else ToUpper (takeWhile (\<lambda>x. x \<noteq> CHR '' '') (TrimSpace c)))
      else [])"
  by (simp add: Verb_def Let_def Index_pos_iff take_Index hd_Split)

text \<open>
  On a US-ASCII line the slice \<^verbatim>\<open>line[i:]\<close> of \<^verbatim>\<open>Arg\<close> never starts beyond the end of
  the line.
\<close>

lemma Verb_length: "isASCII c \<Longrightarrow> length (Verb c) \<le> length c"
proof -
  let ?t = "TrimSpace c"
  have t1: "length ?t \<le> length c" by (rule length_TrimSpace)
  have t: "length (takeWhile P ?t) \<le> length c" for P
    using length_takeWhile_le[of P ?t] t1 by linarith
  have t2: "CHR '':'' \<in> set ?t \<Longrightarrow> Suc (length (takeWhile (\<lambda>x. x \<noteq> CHR '':'') ?t)) \<le> length c"
    using takeWhile_shorter[of ?t "\<lambda>x. x \<noteq> CHR '':''"] t1 by fastforce
  show ?thesis using t t1 t2
    by (simp add: Verb_unfold ToUpper_def CRLF_def)
qed

subsection \<open>A line that begins with the sender verb\<close>

lemma upper_space: "isSpace x \<Longrightarrow> upper x = x"
  by (auto simp: isSpace_def upper_def inRange_def)

lemma upper_colon: "upper x = CHR '':'' \<longleftrightarrow> x = CHR '':''"
proof
  assume u: "upper x = CHR '':''"
  show "x = CHR '':''"
  proof (cases "inRange CHR ''a'' CHR ''z'' x")
    case True
    then have r: "97 \<le> (of_char x :: nat)" "(of_char x :: nat) \<le> 122"
      by (simp_all add: inRange_def)
    have "(of_char (upper x) :: nat) = of_char (char_of ((of_char x :: nat) - 32))"
      using True by (simp add: upper_def)
    also have "\<dots> = ((of_char x :: nat) - 32) mod 256" by simp
    also have "\<dots> = (of_char x :: nat) - 32" using r by simp
    finally have "(of_char (upper x) :: nat) \<ge> 65" using r by simp
    then show ?thesis using u by simp
  next
    case False
    then show ?thesis using u by (simp add: upper_def)
  qed
next
  assume "x = CHR '':''"
  then show "upper x = CHR '':''" by (simp add: upper_def inRange_def)
qed

lemma verb_prefix:
  assumes "ToUpper p = ''MAIL FROM:''"
  shows "length p = 10 \<and> p \<noteq> [] \<and> \<not> isSpace (hd p) \<and>
         (\<exists>q. p = q @ '':'' \<and> CHR '':'' \<notin> set q \<and> q \<noteq> [] \<and> hd q = hd p)"
proof -
  from assms obtain x0 x1 x2 x3 x4 x5 x6 x7 x8 x9 where
    p: "p = [x0, x1, x2, x3, x4, x5, x6, x7, x8, x9]" and
    u: "upper x0 = CHR ''M''" "upper x1 = CHR ''A''" "upper x2 = CHR ''I''" "upper x3 = CHR ''L''"
       "upper x4 = CHR '' ''" "upper x5 = CHR ''F''" "upper x6 = CHR ''R''" "upper x7 = CHR ''O''"
       "upper x8 = CHR ''M''" "upper x9 = CHR '':''"
    by (auto simp: ToUpper_def map_eq_Cons_conv)
  have x9: "x9 = CHR '':''" using u(10) upper_colon by blast
  have nc: "x0 \<noteq> CHR '':''" "x1 \<noteq> CHR '':''" "x2 \<noteq> CHR '':''" "x3 \<noteq> CHR '':''"
      "x4 \<noteq> CHR '':''" "x5 \<noteq> CHR '':''" "x6 \<noteq> CHR '':''" "x7 \<noteq> CHR '':''" "x8 \<noteq> CHR '':''"
    using u upper_colon[of x0] upper_colon[of x1] upper_colon[of x2] upper_colon[of x3]
      upper_colon[of x4] upper_colon[of x5] upper_colon[of x6] upper_colon[of x7]
      upper_colon[of x8]
    by auto
  have ns: "\<not> isSpace x0"
  proof
    assume sp: "isSpace x0"
    then have "x0 = CHR ''M''" using upper_space u(1) by simp
    then show False using sp by (simp add: isSpace_def)
  qed
  have "p = [x0, x1, x2, x3, x4, x5, x6, x7, x8] @ '':''" using p x9 by simp
  moreover have "CHR '':'' \<notin> set [x0, x1, x2, x3, x4, x5, x6, x7, x8]" using nc by auto
  ultimately show ?thesis
    using p ns by (intro conjI exI[of _ "[x0, x1, x2, x3, x4, x5, x6, x7, x8]"]) auto
qed

lemma TrimSpace_prefix:
  assumes "p \<noteq> []" and "\<not> isSpace (hd p)" and "\<not> isSpace (last p)"
  shows "TrimSpace (p @ r) = p @ rev (dropWhile isSpace (rev r))"
proof -
  have 1: "dropWhile isSpace (p @ r) = p @ r"
    using assms(1,2) by (cases p) auto
  have 2: "dropWhile isSpace (rev p) = rev p"
    using assms(1,3) by (cases "rev p") (auto simp: last_rev[symmetric] hd_rev)
  have "dropWhile isSpace (rev r @ rev p) = dropWhile isSpace (rev r) @ rev p"
  proof (cases "\<forall>x\<in>set (rev r). isSpace x")
    case True
    then have "dropWhile isSpace (rev r) = []" by simp
    moreover have "dropWhile isSpace (rev r @ rev p) = dropWhile isSpace (rev p)"
      by (rule dropWhile_append2) (use True in auto)
    ultimately show ?thesis using 2 by simp
  next
    case False
    then obtain x where "x \<in> set (rev r)" "\<not> isSpace x" by blast
    then show ?thesis by (rule dropWhile_append1)
  qed
  then show ?thesis using 1 by (simp add: TrimSpace_def)
qed

lemma takeWhile_first: "c \<notin> set q \<Longrightarrow> takeWhile (\<lambda>x. x \<noteq> c) (q @ c # r) = q"
  by (induction q) auto

text \<open>
  When the line is the verb, in any letter case, and then \<open>r\<close>, the verb is found and the
  argument is \<open>r\<close> without the white space around it.
\<close>

lemma Verb_MAIL:
  assumes "c = p @ r" and "ToUpper p = ''MAIL FROM:''"
  shows "Verb c = ''MAIL FROM:'' \<and> Arg c = TrimSpace r"
proof -
  from verb_prefix[OF assms(2)] obtain q where
    l: "length p = 10" and ne: "p \<noteq> []" and ns: "\<not> isSpace (hd p)" and
    q: "p = q @ '':''" "CHR '':'' \<notin> set q" "q \<noteq> []" "hd q = hd p"
    by blast
  have lp: "\<not> isSpace (last p)" using q(1) by (simp add: isSpace_def)
  let ?r = "rev (dropWhile isSpace (rev r))"
  have t: "TrimSpace c = q @ '':'' @ ?r"
    using TrimSpace_prefix[OF ne ns lp, of r] assms(1) q(1) by simp
  have "10 \<le> length c" using assms(1) l by simp
  then have nq: "c \<noteq> CRLF" by (auto simp: CRLF_def)
  have len: "4 < length (TrimSpace c)" using t l q(1) by simp
  have hd: "hd (TrimSpace c) \<noteq> CHR '':''" using t q by (cases q) auto
  have tw: "takeWhile (\<lambda>x. x \<noteq> CHR '':'') (TrimSpace c) = q"
    using t takeWhile_first[OF q(2)] by simp
  have v: "Verb c = ''MAIL FROM:''"
    using nq len hd tw t assms(2) q(1) by (simp add: Verb_unfold)
  have "length (Verb c) = length p" using v l by simp
  then have "Arg c = TrimSpace (drop (length p) c)" using nq by (simp add: Arg_def)
  then have "Arg c = TrimSpace r" using assms(1) by simp
  then show ?thesis using v by simp
qed

lemma ValidLine_iff:
  "ValidLine c = (if HasSuffix c CRLF then (True, None) else (False, Some syntaxErr))"
  by (auto simp: ValidLine_def HasSuffix_def CRLF_def)

lemma MatchString_rMailArg:
  "MatchString rMailArg s \<longleftrightarrow>
     (\<exists>u l d v. s = u @ ''<'' @ l @ ''@'' @ d @ ''>'' @ v \<and> l \<in> lang (Plus word) \<and> d \<in> lang domain)"
  (is "?m \<longleftrightarrow> ?e")
proof
  assume ?m
  then have "\<exists>u w v. s = u @ w @ v \<and> w \<in> lang rMailArg"
    by (simp only: MatchString_iff)
  then obtain u w v where uwv: "s = u @ w @ v" "w \<in> lang rMailArg"
    by blast
  from uwv(2) have "\<exists>l d. w = ''<'' @ l @ ''@'' @ d @ ''>'' \<and> l \<in> lang (Plus word) \<and> d \<in> lang domain"
    by (simp only: lang_rMailArg)
  then obtain l d where ld: "w = ''<'' @ l @ ''@'' @ d @ ''>''"
      "l \<in> lang (Plus word)" "d \<in> lang domain"
    by blast
  have "s = u @ ''<'' @ l @ ''@'' @ d @ ''>'' @ v"
    using uwv(1) ld(1) by simp
  then show ?e using ld(2,3) by blast
next
  assume ?e
  then obtain u l d v where a: "s = u @ ''<'' @ l @ ''@'' @ d @ ''>'' @ v"
      "l \<in> lang (Plus word)" "d \<in> lang domain"
    by blast
  have "\<exists>l' d'. ''<'' @ l @ ''@'' @ d @ ''>'' = ''<'' @ l' @ ''@'' @ d' @ ''>'' \<and>
      l' \<in> lang (Plus word) \<and> d' \<in> lang domain"
    using a(2,3) by blast
  then have w: "''<'' @ l @ ''@'' @ d @ ''>'' \<in> lang rMailArg"
    by (simp only: lang_rMailArg)
  have "s = u @ (''<'' @ l @ ''@'' @ d @ ''>'') @ v" using a(1) by simp
  then have "\<exists>u' w' v'. s = u' @ w' @ v' \<and> w' \<in> lang rMailArg"
    using w by blast
  then show ?m by (simp only: MatchString_iff)
qed

lemma ValidMail_lang:
  "ValidMail c =
     (if Arg c = [] then (False, Some syntaxErr)
      else if \<exists>u l d v. Arg c = u @ ''<'' @ l @ ''@'' @ d @ ''>'' @ v \<and>
                l \<in> lang (Plus word) \<and> d \<in> lang domain
      then (True, None)
      else (False, Some invalidCommandArgErr))"
proof -
  define E where "E \<longleftrightarrow> (\<exists>u l d v. Arg c = u @ ''<'' @ l @ ''@'' @ d @ ''>'' @ v \<and>
                l \<in> lang (Plus word) \<and> d \<in> lang domain)"
  have m: "MatchString rMailArg (Arg c) \<longleftrightarrow> E"
    unfolding E_def by (rule MatchString_rMailArg)
  have "ValidMail c =
     (if Arg c = [] then (False, Some syntaxErr)
      else if E then (True, None) else (False, Some invalidCommandArgErr))"
    by (simp add: ValidMail_def m)
  then show ?thesis unfolding E_def .
qed

lemma Valid_unterminated: "\<not> HasSuffix c CRLF \<Longrightarrow> Valid v c = (v, False, Some syntaxErr)"
  by (simp add: Valid_def ValidLine_iff)

lemma Valid_MAIL:
  "HasSuffix c CRLF \<Longrightarrow> Verb c = ''MAIL FROM:'' \<Longrightarrow>
   Valid v c =
     (if \<not> HeloFirst v then (v, False, Some ehloFirstErr)
      else case ValidMail c of
          (_, Some err) \<Rightarrow> (v, False, Some err)
        | (_, None) \<Rightarrow> (v\<lparr>MailFirst := True\<rparr>, True, None))"
  by (simp add: Valid_def ValidLine_iff)

lemma Valid_RCPT_ungreeted:
  "HasSuffix c CRLF \<Longrightarrow> Verb c = ''RCPT TO:'' \<Longrightarrow> \<not> HeloFirst v \<Longrightarrow>
   Valid v c = (v, False, Some ehloFirstErr)"
  by (simp add: Valid_def ValidLine_iff)

lemma Valid_passthrough:
  "HasSuffix c CRLF \<Longrightarrow> Verb c \<in> {CRLF, ''RSET'', ''NOOP'', ''HELP'', ''VRFY'', ''EXPN''} \<Longrightarrow>
   Valid v c = (v, True, None)"
  by (auto simp: Valid_def ValidLine_iff CRLF_def)

lemma Valid_MailFirst: "\<not> HeloFirst v \<Longrightarrow> MailFirst (fst (Valid v c)) = MailFirst v"
  by (auto simp: Valid_def split: prod.splits option.splits)

lemma Valid_RcptFirst: "\<not> MailFirst v \<Longrightarrow> RcptFirst (fst (Valid v c)) = RcptFirst v"
  by (auto simp: Valid_def split: prod.splits option.splits)

lemma Valid_DATA: "Verb c = ''DATA'' \<Longrightarrow> fst (snd (Valid v c)) \<Longrightarrow> MailFirst v \<and> RcptFirst v"
  by (auto simp: Valid_def split: prod.splits option.splits if_splits)

lemma Valid_chain: "chain v \<Longrightarrow> chain (fst (Valid v c))"
  by (auto simp: Valid_def chain_def split: prod.splits option.splits if_splits)

lemma run_chain: "chain v \<Longrightarrow> chain (run v cs)"
  unfolding run_def by (induction cs arbitrary: v) (auto simp: Valid_chain)

section \<open>Facts about the loop\<close>

lemma Transmit_simps [simp]:
  "Validity (fst (Transmit env s str)) = Validity s"
  "nreads (fst (Transmit env s str)) = nreads s"
  "ConnClosed (fst (Transmit env s str)) = ConnClosed s"
  "WgDone (fst (Transmit env s str)) = WgDone s"
  "logs (fst (Transmit env s str)) = logs s"
  "wire (fst (Transmit env s str)) = wire s @ [str @ CRLF]"
  "snd (Transmit env s str) = flushErr env (length (wire s))"
  by (simp_all add: Transmit_def)

lemma reply_eq:
  "reply env s envl str =
     (if flushErr env (length (wire s)) then Return else Continue, fst (Transmit env s str), envl)"
  by (simp add: reply_def Transmit_def)

lemma verbs_not_CRLF:
  "''QUIT'' \<noteq> CRLF" "''RSET'' \<noteq> CRLF" "''NOOP'' \<noteq> CRLF" "''HELP'' \<noteq> CRLF"
  "''VRFY'' \<noteq> CRLF" "''EXPN'' \<noteq> CRLF"
  by (simp_all add: CRLF_def)

lemma dispatch_passthrough:
  "Verb c \<in> {''RSET'', ''NOOP'', ''HELP'', ''VRFY'', ''EXPN''} \<Longrightarrow>
   dispatch env s envl c = (Continue, Println s (Verb c), envl)"
  by (auto simp: dispatch_def verbs_not_CRLF)

lemma dispatch_blank: "Verb c = CRLF \<Longrightarrow> dispatch env s envl c = (Continue, Println s ''enter'', envl)"
  by (auto simp: dispatch_def CRLF_def)

lemma dispatch_keeps:
  "Validity (fst (snd (dispatch env s envl c))) = Validity s \<and>
   ConnClosed (fst (snd (dispatch env s envl c))) = ConnClosed s \<and>
   WgDone (fst (snd (dispatch env s envl c))) = WgDone s"
  by (simp add: dispatch_def reply_eq Println_def Let_def)

text \<open>The body of the loop as nested conditionals.\<close>

lemma iteration_eq:
  "iteration env (s, envl) =
     (let n = nreads s;
          c = reads env n;
          readErr = snd (ReadString env n);
          s1 = s\<lparr>nreads := Suc n\<rparr>;
          s2 = (if readErr then fst (Transmit env s1 REPLY_453) else s1)
      in if readErr \<and> flushErr env (length (wire s)) then (Return, s2, envl)
         else if stopped env n then (Return, fst (Transmit env s2 REPLY_453), envl)
         else case snd (Valid (Validity s) c) of
                (False, Some err) \<Rightarrow>
                  (if flushErr env (length (wire s2)) then Return else Continue,
                   fst (TransmitErr env (s2\<lparr>Validity := fst (Valid (Validity s) c)\<rparr>) err), envl)
              | _ \<Rightarrow> dispatch env (s2\<lparr>Validity := fst (Valid (Validity s) c)\<rparr>) envl c)"
  by (simp add: iteration_def ReadString_def Let_def CheckChanClosed_def Transmit_def TransmitErr_def
      split: prod.splits option.splits bool.splits)

lemma iteration_keeps:
  "ConnClosed (fst (snd (iteration env (s, envl)))) = ConnClosed s \<and>
   WgDone (fst (snd (iteration env (s, envl)))) = WgDone s \<and>
   (Validity (fst (snd (iteration env (s, envl)))) = Validity s \<or>
    Validity (fst (snd (iteration env (s, envl)))) = fst (Valid (Validity s) (reads env (nreads s))))"
  by (simp add: iteration_eq Let_def TransmitErr_def dispatch_keeps
      split: prod.splits option.splits bool.splits)

lemma loop_keeps:
  "loop k env (s, envl) = Some (s', envl') \<Longrightarrow>
   ConnClosed s' = ConnClosed s \<and> WgDone s' = WgDone s \<and> (chain (Validity s) \<longrightarrow> chain (Validity s'))"
proof (induction k arbitrary: s envl)
  case 0
  then show ?case by simp
next
  case (Suc k)
  obtain f s1 e1 where it: "iteration env (s, envl) = (f, s1, e1)"
    by (metis prod_cases3)
  have c1: "ConnClosed s1 = ConnClosed s \<and> WgDone s1 = WgDone s \<and> (chain (Validity s) \<longrightarrow> chain (Validity s1))"
    using iteration_keeps[of env s envl] it Valid_chain[of "Validity s" "reads env (nreads s)"] by auto
  show ?case
  proof (cases f)
    case Continue
    then have "loop k env (s1, e1) = Some (s', envl')" using Suc.prems it by simp
    from Suc.IH[OF this] c1 show ?thesis by simp
  next
    case Return
    then show ?thesis using Suc.prems it c1 by simp
  qed
qed

lemma iteration_nreads: "nreads (fst (snd (iteration env (s, envl)))) = Suc (nreads s)"
  by (simp add: iteration_eq Let_def TransmitErr_def dispatch_def reply_eq Println_def
      split: prod.splits option.splits bool.splits)

lemma iteration_stopped: "stopped env (nreads s) \<Longrightarrow> fst (iteration env (s, envl)) = Return"
  by (simp add: iteration_eq Let_def)

text \<open>Once the shutdown signal is raised the loop ends, at the latest in that iteration.\<close>

lemma loop_stops:
  "stopped env n \<Longrightarrow> nreads s \<le> n \<Longrightarrow> loop (Suc n - nreads s) env (s, envl) \<noteq> None"
proof (induction "n - nreads s" arbitrary: s envl)
  case 0
  then have "nreads s = n" by simp
  then have "fst (iteration env (s, envl)) = Return"
    using iteration_stopped[of env s envl] "0.prems"(1) by simp
  then obtain se1 where "iteration env (s, envl) = (Return, se1)"
    by (metis prod.collapse)
  then show ?case using \<open>nreads s = n\<close> by simp
next
  case (Suc d)
  obtain f s1 e1 where it: "iteration env (s, envl) = (f, s1, e1)"
    by (metis prod_cases3)
  have n1: "nreads s1 = Suc (nreads s)" using iteration_nreads[of env s envl] it by simp
  have k: "Suc n - nreads s = Suc (Suc n - nreads s1)" using Suc.hyps(2) n1 by simp
  show ?case
  proof (cases f)
    case Return
    then show ?thesis using it k by simp
  next
    case Continue
    have "d = n - nreads s1" "nreads s1 \<le> n" using Suc.hyps(2) n1 by simp_all
    from Suc.hyps(1)[OF this(1) Suc.prems(1) this(2)]
    have "loop (Suc n - nreads s1) env (s1, e1) \<noteq> None" .
    then show ?thesis using it k Continue by simp
  qed
qed

lemma Serve_cases:
  "Serve k env s = Some s' \<Longrightarrow>
   s' = Close (fst (Transmit env s REPLY_220)) \<or>
   (\<exists>s2 envl. loop k env (fst (Transmit env s REPLY_220), NewEnvelope) = Some (s2, envl) \<and> s' = Close s2)"
proof (cases "flushErr env (length (wire s))")
  case True
  assume "Serve k env s = Some s'"
  then show ?thesis using True by (simp add: Serve_def Transmit_def)
next
  case False
  assume "Serve k env s = Some s'"
  then show ?thesis using False by (auto simp: Serve_def Transmit_def split: option.splits)
qed

lemma loop_mono: "loop k env se = Some r \<Longrightarrow> loop (k + j) env se = Some r"
proof (induction k arbitrary: se)
  case 0
  then show ?case by simp
next
  case (Suc k)
  obtain f se1 where it: "iteration env se = (f, se1)" by (metis prod.exhaust)
  show ?case using Suc it by (cases f) auto
qed

subsection \<open>The lines of the examples\<close>

lemma script_verbs:
  "Verb cEHLO = ''EHLO''" "Verb cMAIL = ''MAIL FROM:''" "Verb cRCPT = ''RCPT TO:''"
  "Verb cDATA = ''DATA''" "Verb cQUIT = ''QUIT''" "Verb cRSET = ''RSET''" "Verb cNOOP = ''NOOP''"
  by code_simp+

lemma script_valid:
  "ValidHello cEHLO = (True, None)" "ValidMail cMAIL = (True, None)" "ValidRcpt cRCPT = (True, None)"
  "ValidData cDATA = (True, None)" "ValidQuit cQUIT = (True, None)"
  by code_simp+

lemma script_lines:
  "ValidLine cEHLO = (True, None)" "ValidLine cMAIL = (True, None)" "ValidLine cRCPT = (True, None)"
  "ValidLine cDATA = (True, None)" "ValidLine cQUIT = (True, None)"
  by code_simp+

lemma script_suffix:
  "HasSuffix cEHLO CRLF" "HasSuffix cMAIL CRLF" "HasSuffix cRCPT CRLF" "HasSuffix cDATA CRLF"
  "HasSuffix cQUIT CRLF" "HasSuffix cRSET CRLF" "HasSuffix cNOOP CRLF" "HasSuffix CRLF CRLF"
  by code_simp+

lemma script_addr: "EmailAddress cMAIL = ''a@b.com''" "EmailAddress cRCPT = ''c@d.com''"
  by code_simp+

lemmas iter_defs =
  iteration_def Valid_def dispatch_def reply_def Transmit_def CheckChanClosed_def Let_def

lemma step_EHLO:
  "reads env (nreads s) = cEHLO \<Longrightarrow> \<not> stopped env (nreads s) \<Longrightarrow>
   \<not> flushErr env (length (wire s)) \<Longrightarrow>
   iteration env (s, envl) =
     (Continue,
      s\<lparr>Validity := (Validity s)\<lparr>HeloFirst := True\<rparr>, wire := wire s @ [REPLY_250 @ CRLF],
        nreads := Suc (nreads s)\<rparr>,
      envl)"
  by (simp add: iter_defs ReadString_ok script_suffix script_verbs script_valid script_lines)

lemma step_MAIL:
  "reads env (nreads s) = cMAIL \<Longrightarrow> \<not> stopped env (nreads s) \<Longrightarrow>
   \<not> flushErr env (length (wire s)) \<Longrightarrow> HeloFirst (Validity s) \<Longrightarrow>
   iteration env (s, envl) =
     (Continue,
      s\<lparr>Validity := (Validity s)\<lparr>MailFirst := True\<rparr>, wire := wire s @ [REPLY_250 @ CRLF],
        nreads := Suc (nreads s)\<rparr>,
      envl\<lparr>OriginatorAddress := ''a@b.com''\<rparr>)"
  by (simp add: iter_defs ReadString_ok script_suffix script_verbs script_valid script_lines script_addr)

lemma step_RCPT:
  "reads env (nreads s) = cRCPT \<Longrightarrow> \<not> stopped env (nreads s) \<Longrightarrow>
   \<not> flushErr env (length (wire s)) \<Longrightarrow> HeloFirst (Validity s) \<Longrightarrow> MailFirst (Validity s) \<Longrightarrow>
   iteration env (s, envl) =
     (Continue,
      s\<lparr>Validity := (Validity s)\<lparr>RcptFirst := True\<rparr>, wire := wire s @ [REPLY_250_RCPT @ CRLF],
        nreads := Suc (nreads s)\<rparr>,
      envl\<lparr>RecipientAddress := RecipientAddress envl @ [''c@d.com'']\<rparr>)"
  by (simp add: iter_defs ReadString_ok script_suffix script_verbs script_valid script_lines script_addr)

lemma step_DATA:
  "reads env (nreads s) = cDATA \<Longrightarrow> \<not> stopped env (nreads s) \<Longrightarrow>
   \<not> flushErr env (length (wire s)) \<Longrightarrow>
   HeloFirst (Validity s) \<Longrightarrow> MailFirst (Validity s) \<Longrightarrow> RcptFirst (Validity s) \<Longrightarrow>
   iteration env (s, envl) =
     (Continue, s\<lparr>wire := wire s @ [REPLY_354 @ CRLF], nreads := Suc (nreads s)\<rparr>, envl)"
  by (simp add: iter_defs ReadString_ok script_suffix script_verbs script_valid script_lines)

lemma step_QUIT:
  "reads env (nreads s) = cQUIT \<Longrightarrow> \<not> stopped env (nreads s) \<Longrightarrow>
   iteration env (s, envl) =
     (Return, s\<lparr>wire := wire s @ [REPLY_221 @ CRLF], nreads := Suc (nreads s)\<rparr>, envl)"
  by (simp add: iter_defs ReadString_ok script_suffix script_verbs script_valid script_lines verbs_not_CRLF)


section \<open>The tables of the repository's tests\<close>

text \<open>
  The embedding gives, on every row of the test tables that come with the source, the
  answer the test expects of the code.
\<close>

lemma TestCommandValidLine:
  "map ValidLine [[], CRLF, ''HELLO''] = [(False, Some syntaxErr), (True, None), (False, Some syntaxErr)]"
  by code_simp

lemma TestCommandVerb:
  "map (\<lambda>l. Verb (l @ CRLF))
     ['''', ''DATA'', ''data'', ''RSET'', ''rset'', ''QUIT'', ''quit'', ''NOOP'', ''noop'',
      ''EHLO some-string'', ''HELO some-string'', ''ehlo some-string'', ''helo some-string'',
      ''NOOP some-string'', ''noop some-string'', ''HELP some-string'', ''EXPN some-string'',
      ''expn some-string'', ''VRFY some-string'', ''vrfy some-string'',
      ''MAIL FROM: some-string'', ''mail from: some-string'', ''RCPT TO: some-string'',
      ''rcpt to: some-string''] =
     [CRLF, ''DATA'', ''DATA'', ''RSET'', ''RSET'', ''QUIT'', ''QUIT'', ''NOOP'', ''NOOP'',
      ''EHLO'', ''HELO'', ''EHLO'', ''HELO'', ''NOOP'', ''NOOP'', ''HELP'', ''EXPN'', ''EXPN'',
      ''VRFY'', ''VRFY'', ''MAIL FROM:'', ''MAIL FROM:'', ''RCPT TO:'', ''RCPT TO:'']"
  by code_simp

lemma TestCommandArg:
  "map (\<lambda>l. Arg (l @ CRLF))
     ['''', ''EHLO some-string'', ''helo some-string'', ''NOOP some-string'', ''HELP some-string'',
      ''expn some-string'', ''vrfy some-string'',
      ''MAIL FROM:<reverse-path> <mail-parameter>'',
      ''mail from: <reverse-path> <mail-parameter>''] =
     ['''', ''some-string'', ''some-string'', ''some-string'', ''some-string'', ''some-string'',
      ''some-string'', ''<reverse-path> <mail-parameter>'', ''<reverse-path> <mail-parameter>'']"
  by code_simp

lemma TestValidityOfHelloCommand:
  "map (\<lambda>l. ValidHello (l @ CRLF))
     [''EHLO mail.domain.com'', ''EHLO mail.domain.com '', ''EHLO'', ''EHLO '',
      ''EHLO mail.domain.com test'', ''EHLO mail.domain.com test 1 2 3'',
      ''HELO mail.domain.com'', ''HELO mail.domain.com '', ''HELO'', ''HELO '',
      ''HELO mail.domain.com test'', ''HELO mail.domain.com test 1 2 3''] =
     [(True, None), (True, None), (False, Some invalidCommandArgErr),
      (False, Some invalidCommandArgErr), (False, Some invalidCommandArgErr),
      (False, Some invalidCommandArgErr),
      (True, None), (True, None), (False, Some invalidCommandArgErr),
      (False, Some invalidCommandArgErr), (False, Some invalidCommandArgErr),
      (False, Some invalidCommandArgErr)]"
  by code_simp

lemma TestCommandEmailAddress:
  "map (\<lambda>l. EmailAddress (l @ CRLF))
     [''EHLO ubuntu-trusty'', ''HELO ubuntu-trusty'',
      ''MAIL FROM:<some@domain.com>'', ''MAIL FROM:<some@domain.com> with-extension'',
      ''MAIL FROM:<some12@sub.domain.com> with-extension'',
      ''MAIL FROM:<some12-ds@sub.domain.com> with-extension'',
      ''MAIL FROM:<some_rods@sub.domain.com> with-extension'',
      ''MAIL FROM:<some.another@sub.domain.com> with-extension'',
      ''MAIL FROM:<some.anot-her@sub.domain.com> with-extension'',
      ''RCPT TO:<some@domain.com>'', ''RCPT TO:<@host.io:some@domain.com> with-extension'',
      ''RCPT TO:<@host.io,@abchost.com:some@domain.com> with-extension''] =
     ['''', '''', ''some@domain.com'', ''some@domain.com'', ''some12@sub.domain.com'',
      ''some12-ds@sub.domain.com'', ''some_rods@sub.domain.com'', ''some.another@sub.domain.com'',
      ''some.anot-her@sub.domain.com'', ''some@domain.com'', ''some@domain.com'',
      ''some@domain.com'']"
  by code_simp

lemma TestValidityOfMailCommand:
  "map (\<lambda>l. ValidMail (l @ CRLF))
     [''MAIL FROM:'', ''MAIL FROM: '', ''MAIL FROM: some invalid argument'',
      ''MAIL FROM: some@valid.email.com'', ''MAIL FROM:<invalid-email>'',
      ''MAIL FROM:<some@valid-email.com,twice@appear.this.com>'',
      ''MAIL FROM:<some@valid.email.com>'', ''MAIL FROM: <some@valid.email.com>''] =
     [(False, Some syntaxErr), (False, Some syntaxErr), (False, Some invalidCommandArgErr),
      (False, Some invalidCommandArgErr), (False, Some invalidCommandArgErr),
      (False, Some invalidCommandArgErr), (True, None), (True, None)]"
  by code_simp

lemma TestValidityOfRcptCommand:
  "map (\<lambda>l. ValidRcpt (l @ CRLF))
     [''RCPT TO:'', ''RCPT TO: '', ''RCPT TO: some random arg'',
      ''RCPT TO:<invalid formatted email>'', ''RCPT TO:<some@email.com,some@anothermail.com>'',
      ''RCPT TO: <@hostA.io,@hostB.io:some@email.com,some@anohet.com>''] =
     [(False, Some syntaxErr), (False, Some syntaxErr), (False, Some syntaxErr),
      (False, Some invalidRcptEmailErr), (False, Some invalidRcptEmailErr),
      (False, Some invalidRcptEmailErr)]"
  by code_simp

lemma TestValidityOfDataCommand:
  "map (\<lambda>l. ValidData (l @ CRLF)) [''DATA'', ''data'', ''DATA '', ''DATA plus argument''] =
     [(True, None), (True, None), (True, None), (False, Some syntaxErr)]"
  by code_simp

lemma TestValidityOfQuitCommand:
  "map (\<lambda>l. ValidQuit (l @ CRLF)) [''QUIT'', ''QUIT '', ''QUIT argument'', ''QUIT some argument ''] =
     [(True, None), (True, None), (False, Some invalidCommandArgErr),
      (False, Some invalidCommandArgErr)]"
  by code_simp

section \<open>The claims\<close>

text \<open>
  C1. The sequencing flags form a precondition chain. \<^verbatim>\<open>Valid\<close> leaves \<open>MailFirst\<close> as it is
  while \<open>HeloFirst\<close> is false, and a terminated \<^verbatim>\<open>MAIL FROM:\<close> line is then rejected with
  the greeting-required error; it leaves \<open>RcptFirst\<close> as it is while \<open>MailFirst\<close> is
  false; it accepts \<^verbatim>\<open>DATA\<close> only when \<open>MailFirst\<close> and \<open>RcptFirst\<close> are both true. Hence
  after any sequence of lines given to a fresh session, and in the state with which
  \<^verbatim>\<open>Serve\<close> returns, \<open>RcptFirst\<close> implies \<open>MailFirst\<close> and \<open>MailFirst\<close> implies
  \<open>HeloFirst\<close>.
\<close>

theorem precondition_chain:
  "(\<not> HeloFirst v \<longrightarrow> MailFirst (fst (Valid v c)) = MailFirst v) \<and>
   (\<not> HeloFirst v \<and> HasSuffix c CRLF \<and> Verb c = ''MAIL FROM:'' \<longrightarrow>
      Valid v c = (v, False, Some ehloFirstErr)) \<and>
   (\<not> MailFirst v \<longrightarrow> RcptFirst (fst (Valid v c)) = RcptFirst v) \<and>
   (Verb c = ''DATA'' \<and> fst (snd (Valid v c)) \<longrightarrow> MailFirst v \<and> RcptFirst v) \<and>
   chain (run (Validity New) cs) \<and>
   (Serve k env New = Some s' \<longrightarrow> chain (Validity s'))"
proof -
  have fresh: "chain (Validity New)" by (simp add: chain_def New_def)
  have "Serve k env New = Some s' \<longrightarrow> chain (Validity s')"
  proof
    assume "Serve k env New = Some s'"
    from Serve_cases[OF this] show "chain (Validity s')"
    proof
      assume "s' = Close (fst (Transmit env New REPLY_220))"
      then show ?thesis using fresh by (simp add: Close_def)
    next
      assume "\<exists>s2 envl. loop k env (fst (Transmit env New REPLY_220), NewEnvelope) = Some (s2, envl) \<and>
          s' = Close s2"
      then obtain s2 envl where l: "loop k env (fst (Transmit env New REPLY_220), NewEnvelope) = Some (s2, envl)"
        and s': "s' = Close s2" by blast
      from loop_keeps[OF l] fresh have "chain (Validity s2)" by simp
      then show ?thesis using s' by (simp add: Close_def)
    qed
  qed
  then show ?thesis
    using Valid_MailFirst[of v c] Valid_MAIL[of c v] Valid_RcptFirst[of v c] Valid_DATA[of c v]
      run_chain[OF fresh, of cs]
    by simp
qed

theorem precondition_chain_witness:
  "Valid (Validity New) cMAIL = (Validity New, False, Some ehloFirstErr) \<and>
   MailFirst (fst (Valid (Validity New) cEHLO)) = False \<and>
   RcptFirst (fst (Valid (Validity New) cRCPT)) = False \<and>
   fst (snd (Valid ready cDATA)) \<and>
   run (Validity New) script = ready \<and>
   Serve 5 (peer script) New \<noteq> None"
proof -
  have 1: "\<not> HeloFirst (Validity New)" "\<not> MailFirst (Validity New)"
    by (simp_all add: New_def)
  have 2: "fst (snd (Valid ready cDATA))" by code_simp
  have 3: "run (Validity New) script = ready" by code_simp
  have 4: "Serve 5 (peer script) New \<noteq> None" by code_simp
  show ?thesis
    using precondition_chain[of "Validity New" cMAIL script 5 "peer script" "the (Serve 5 (peer script) New)"]
      precondition_chain[of "Validity New" cEHLO]
      precondition_chain[of "Validity New" cRCPT]
      precondition_chain[of ready cDATA]
      1 2 3 4 script_suffix script_verbs
    by (simp add: New_def)
qed

text \<open>
  C2. A fresh session whose peer sends \<^verbatim>\<open>EHLO host\<close>, \<^verbatim>\<open>MAIL FROM:<a@b.com>\<close>,
  \<^verbatim>\<open>RCPT TO:<c@d.com>\<close>, \<^verbatim>\<open>DATA\<close> and \<^verbatim>\<open>QUIT\<close>, each ended by CR LF, with no write
  failing and no shutdown signal, transmits the greeting and then, in this order, 250,
  250, the 250 of the recipient, 354 and 221; the loop then ends (five iterations are
  enough, more change nothing) and the connection is closed.
\<close>

theorem five_line_session:
  assumes r: "\<forall>i<5. reads env i = script ! i"
    and f: "\<forall>i<6. \<not> flushErr env i"
    and p: "\<forall>i<5. \<not> stopped env i"
  shows "Serve (5 + k) env New =
     Some \<lparr>Validity = \<lparr>HeloFirst = True, MailFirst = True, RcptFirst = True\<rparr>,
        wire = [REPLY_220 @ CRLF, REPLY_250 @ CRLF, REPLY_250 @ CRLF, REPLY_250_RCPT @ CRLF,
                REPLY_354 @ CRLF, REPLY_221 @ CRLF],
        logs = [], nreads = 5, ConnClosed = 1, WgDone = 1\<rparr>"
proof -
  have r': "reads env 0 = cEHLO" "reads env (Suc 0) = cMAIL"
     "reads env (Suc (Suc 0)) = cRCPT" "reads env (Suc (Suc (Suc 0))) = cDATA"
     "reads env (Suc (Suc (Suc (Suc 0)))) = cQUIT"
    using r by (simp_all add: script_def)
  have f': "\<not> flushErr env 0" "\<not> flushErr env (Suc 0)" "\<not> flushErr env (Suc (Suc 0))"
    "\<not> flushErr env (Suc (Suc (Suc 0)))" "\<not> flushErr env (Suc (Suc (Suc (Suc 0))))"
    "\<not> flushErr env (Suc (Suc (Suc (Suc (Suc 0)))))"
    using f by simp_all
  have p': "\<not> stopped env 0" "\<not> stopped env (Suc 0)" "\<not> stopped env (Suc (Suc 0))"
    "\<not> stopped env (Suc (Suc (Suc 0)))" "\<not> stopped env (Suc (Suc (Suc (Suc 0))))"
    using p by simp_all
  define s0 where "s0 = New\<lparr>wire := [REPLY_220 @ CRLF]\<rparr>"
  define s1 where "s1 = s0\<lparr>Validity := (Validity s0)\<lparr>HeloFirst := True\<rparr>,
    wire := wire s0 @ [REPLY_250 @ CRLF], nreads := Suc (nreads s0)\<rparr>"
  define s2 where "s2 = s1\<lparr>Validity := (Validity s1)\<lparr>MailFirst := True\<rparr>,
    wire := wire s1 @ [REPLY_250 @ CRLF], nreads := Suc (nreads s1)\<rparr>"
  define s3 where "s3 = s2\<lparr>Validity := (Validity s2)\<lparr>RcptFirst := True\<rparr>,
    wire := wire s2 @ [REPLY_250_RCPT @ CRLF], nreads := Suc (nreads s2)\<rparr>"
  define s4 where "s4 = s3\<lparr>wire := wire s3 @ [REPLY_354 @ CRLF], nreads := Suc (nreads s3)\<rparr>"
  define s5 where "s5 = s4\<lparr>wire := wire s4 @ [REPLY_221 @ CRLF], nreads := Suc (nreads s4)\<rparr>"
  define e1 where "e1 = NewEnvelope\<lparr>OriginatorAddress := ''a@b.com''\<rparr>"
  define e2 where "e2 = e1\<lparr>RecipientAddress := RecipientAddress e1 @ [''c@d.com'']\<rparr>"
  have i1: "iteration env (s0, NewEnvelope) = (Continue, s1, NewEnvelope)"
    unfolding s1_def by (rule step_EHLO) (simp_all add: s0_def New_def r' f' p')
  have i2: "iteration env (s1, NewEnvelope) = (Continue, s2, e1)"
    unfolding s2_def e1_def by (rule step_MAIL) (simp_all add: s1_def s0_def New_def r' f' p')
  have i3: "iteration env (s2, e1) = (Continue, s3, e2)"
    unfolding s3_def e2_def
    by (rule step_RCPT) (simp_all add: s2_def s1_def s0_def New_def r' f' p')
  have i4: "iteration env (s3, e2) = (Continue, s4, e2)"
    unfolding s4_def
    by (rule step_DATA) (simp_all add: s3_def s2_def s1_def s0_def New_def r' f' p')
  have i5: "iteration env (s4, e2) = (Return, s5, e2)"
    unfolding s5_def
    by (rule step_QUIT) (simp_all add: s4_def s3_def s2_def s1_def s0_def New_def r' f' p')
  have "loop 5 env (s0, NewEnvelope) = Some (s5, e2)"
    by (simp add: eval_nat_numeral i1 i2 i3 i4 i5)
  from loop_mono[OF this, of k] show ?thesis using f'
    by (simp add: Serve_def Transmit_def Close_def New_def s0_def s1_def s2_def s3_def s4_def s5_def)
qed

theorem five_line_session_witness:
  "Serve 5 (peer script) New =
     Some \<lparr>Validity = \<lparr>HeloFirst = True, MailFirst = True, RcptFirst = True\<rparr>,
        wire = [REPLY_220 @ CRLF, REPLY_250 @ CRLF, REPLY_250 @ CRLF, REPLY_250_RCPT @ CRLF,
                REPLY_354 @ CRLF, REPLY_221 @ CRLF],
        logs = [], nreads = 5, ConnClosed = 1, WgDone = 1\<rparr>"
  using five_line_session[of "peer script" 0] by (simp add: peer_def script_def)

text \<open>
  C3. Every \<^verbatim>\<open>RCPT TO:\<close> line, ended by CR LF as a command line is, whatever its
  argument and whether or not that argument is well formed, given as the first command
  to a fresh session is refused by \<^verbatim>\<open>Valid\<close> with a sequence error, the one that asks
  for the greeting (\<open>ehloFirstErr\<close>, ``503 5.5.1 HELO/EHLO first''); the loop transmits the
  text of that error and nothing else, goes on unless the write fails, and leaves the
  flags and the envelope, its recipient list included, as they were.
\<close>

theorem rcpt_first_bad_sequence:
  assumes "HasSuffix c CRLF" and "Verb c = ''RCPT TO:''" and "Validity s = Validity New"
    and "reads env (nreads s) = c" and "\<not> stopped env (nreads s)"
  shows "Valid (Validity s) c = (Validity s, False, Some ehloFirstErr) \<and>
         BadSequence ehloFirstErr \<and>
         iteration env (s, envl) =
           (if flushErr env (length (wire s)) then Return else Continue,
            s\<lparr>nreads := Suc (nreads s), wire := wire s @ [Error ehloFirstErr @ CRLF]\<rparr>,
            envl)"
proof -
  have nh: "\<not> HeloFirst (Validity s)" using assms(3) by (simp add: New_def)
  have v: "Valid (Validity s) c = (Validity s, False, Some ehloFirstErr)"
    using Valid_RCPT_ungreeted[OF assms(1,2) nh] .
  have rd: "ReadString env (nreads s) = (c, False)"
    using ReadString_ok[of env "nreads s"] assms(1,4) by simp
  show ?thesis using v rd assms(4,5)
    by (simp add: iteration_eq TransmitErr_def BadSequence_def)
qed

theorem rcpt_first_bad_sequence_witness:
  "iteration (peer [cRCPT]) (New, NewEnvelope) =
     (Continue, New\<lparr>nreads := 1, wire := [''503 5.5.1 HELO/EHLO first'' @ CRLF]\<rparr>, NewEnvelope)"
  using rcpt_first_bad_sequence[of cRCPT New "peer [cRCPT]" NewEnvelope]
  by (simp add: script_suffix script_verbs peer_def New_def)

text \<open>
  C4, as the specification words it, fails: it makes the absence of the angle brackets a
  syntax error. The line \<^verbatim>\<open>MAIL FROM: some invalid argument\<close> of the repository's
  own test has no angle bracket in its argument, and \<^verbatim>\<open>ValidMail\<close> answers with the
  invalid-arguments error, where the check as worded answers with the syntax error.
\<close>

theorem sender_syntax_counterexample:
  "HasSuffix cBARE CRLF \<and> Verb cBARE = ''MAIL FROM:'' \<and> Arg cBARE = ''some invalid argument'' \<and>
   \<not> MatchString rArgSyntax (Arg cBARE) \<and>
   ValidMail cBARE = (False, Some invalidCommandArgErr) \<and>
   ValidMail_spec cBARE = (False, Some syntaxErr)"
  by code_simp

text \<open>
  C4, amended. Take a line of US-ASCII bytes that is the verb \<^verbatim>\<open>MAIL FROM:\<close>, in any
  letter case, and then a rest; the argument is the rest without the white space around
  it. \<^verbatim>\<open>ValidMail\<close> fails with the syntax error exactly when the argument is empty; it
  succeeds exactly when the argument contains \<^verbatim>\<open><\<close>, a local part, \<^verbatim>\<open>@\<close>, a domain and
  \<^verbatim>\<open>>\<close> in a row, the local part and the domain being words of the address pattern; and
  it fails with the invalid-arguments error in every other case, with or without angle
  brackets. When the line ends in CR LF and the session is greeted, \<^verbatim>\<open>Valid\<close> gives that
  very answer.
\<close>

theorem sender_validation:
  assumes "isASCII c" and "c = p @ r" and "ToUpper p = ''MAIL FROM:''"
  shows "Verb c = ''MAIL FROM:'' \<and>
     ValidMail c =
       (if TrimSpace r = [] then (False, Some syntaxErr)
        else if \<exists>u l d v. TrimSpace r = u @ ''<'' @ l @ ''@'' @ d @ ''>'' @ v \<and>
                  l \<in> lang (Plus word) \<and> d \<in> lang domain
        then (True, None)
        else (False, Some invalidCommandArgErr)) \<and>
     (HasSuffix c CRLF \<and> HeloFirst v \<longrightarrow> snd (Valid v c) = ValidMail c)"
proof -
  have va: "Verb c = ''MAIL FROM:''" "Arg c = TrimSpace r"
    using Verb_MAIL[OF assms(2,3)] by simp_all
  have 1: "ValidMail c =
       (if TrimSpace r = [] then (False, Some syntaxErr)
        else if \<exists>u l d v. TrimSpace r = u @ ''<'' @ l @ ''@'' @ d @ ''>'' @ v \<and>
                  l \<in> lang (Plus word) \<and> d \<in> lang domain
        then (True, None)
        else (False, Some invalidCommandArgErr))"
    using ValidMail_lang[of c] unfolding va(2) .
  have 2: "snd (Valid v c) = ValidMail c" if "HasSuffix c CRLF" "HeloFirst v"
    using that va(1) Valid_MAIL[of c v]
    by (auto simp: ValidMail_def split: if_splits)
  show ?thesis using va(1) 1 2 by blast
qed

theorem sender_validation_witness:
  "isASCII cMAIL \<and> Verb cMAIL = ''MAIL FROM:'' \<and> ValidMail cMAIL = (True, None) \<and>
   snd (Valid greeted cMAIL) = (True, None)"
proof -
  have a: "isASCII cMAIL" by code_simp
  have b: "cMAIL = ''MAIL FROM:'' @ (''<a@b.com>'' @ CRLF)" by (simp add: cMAIL_def)
  have c: "ToUpper ''MAIL FROM:'' = ''MAIL FROM:''" by code_simp
  have d: "HasSuffix cMAIL CRLF \<and> HeloFirst greeted"
    by (simp add: script_suffix greeted_def)
  from sender_validation[OF a b c, of greeted] d
  have "Verb cMAIL = ''MAIL FROM:''" "snd (Valid greeted cMAIL) = ValidMail cMAIL"
    by blast+
  then show ?thesis using a script_valid(2) by simp
qed

text \<open>
  C5. When the read of an iteration returns an error and the shutdown signal is not
  raised, the session transmits the retry reply (\<open>REPLY_453\<close>, of the transient 4yz class);
  if that write succeeds it then answers the unterminated data with the syntax error, and
  the loop continues. The iteration ends the session exactly when one of these two writes
  fails.
\<close>

theorem read_error_is_not_fatal:
  assumes "snd (ReadString env (nreads s))" and "\<not> stopped env (nreads s)"
  shows "iteration env (s, envl) =
     (if flushErr env (length (wire s)) then
        (Return, s\<lparr>nreads := Suc (nreads s), wire := wire s @ [REPLY_453 @ CRLF]\<rparr>, envl)
      else
        (if flushErr env (Suc (length (wire s))) then Return else Continue,
         s\<lparr>nreads := Suc (nreads s),
           wire := wire s @ [REPLY_453 @ CRLF, Error syntaxErr @ CRLF]\<rparr>,
         envl))"
proof -
  have "\<not> HasSuffix (reads env (nreads s)) CRLF"
    using ReadString_err[OF assms(1)] by (simp add: ReadString_def)
  then have v: "\<And>v. Valid v (reads env (nreads s)) = (v, False, Some syntaxErr)"
    using Valid_unterminated by simp
  show ?thesis using assms v
    by (simp add: iteration_eq TransmitErr_def Transmit_def)
qed

theorem read_error_is_not_fatal_witness:
  "snd (ReadString (peer []) 0) \<and>
   iteration (peer []) (New, NewEnvelope) =
     (Continue, New\<lparr>nreads := 1, wire := [REPLY_453 @ CRLF, Error syntaxErr @ CRLF]\<rparr>, NewEnvelope)"
  using read_error_is_not_fatal[of "peer []" New NewEnvelope]
  by (simp add: ReadString_def peer_def New_def)

text \<open>
  C6. Whenever \<^verbatim>\<open>Serve\<close> returns, by whichever path, it has closed the connection once
  and called \<^verbatim>\<open>Done\<close> on the wait group once. It does return when the first write
  fails, and when the shutdown signal is raised: at the latest in the iteration that
  polls it.
\<close>

theorem close_exactly_once:
  "(Serve k env s = Some s' \<longrightarrow> ConnClosed s' = Suc (ConnClosed s) \<and> WgDone s' = Suc (WgDone s)) \<and>
   (flushErr env (length (wire s)) \<longrightarrow> Serve k env s \<noteq> None) \<and>
   (stopped env n \<and> nreads s \<le> n \<longrightarrow> Serve (Suc n - nreads s) env s \<noteq> None)"
proof -
  have 1: "ConnClosed s' = Suc (ConnClosed s) \<and> WgDone s' = Suc (WgDone s)"
    if "Serve k env s = Some s'"
    using Serve_cases[OF that]
  proof
    assume "s' = Close (fst (Transmit env s REPLY_220))"
    then show ?thesis by (simp add: Close_def)
  next
    assume "\<exists>s2 envl. loop k env (fst (Transmit env s REPLY_220), NewEnvelope) = Some (s2, envl) \<and>
        s' = Close s2"
    then obtain s2 envl where l: "loop k env (fst (Transmit env s REPLY_220), NewEnvelope) = Some (s2, envl)"
      and s': "s' = Close s2" by blast
    from loop_keeps[OF l] s' show ?thesis by (simp add: Close_def)
  qed
  have 2: "Serve k env s \<noteq> None" if "flushErr env (length (wire s))"
    using that by (simp add: Serve_def Transmit_def)
  have 3: "Serve (Suc n - nreads s) env s \<noteq> None" if "stopped env n" "nreads s \<le> n"
  proof -
    have "loop (Suc n - nreads (fst (Transmit env s REPLY_220))) env
        (fst (Transmit env s REPLY_220), NewEnvelope) \<noteq> None"
      by (rule loop_stops) (simp_all add: that)
    then show ?thesis
      by (auto simp: Serve_def Transmit_def split: bool.splits option.splits)
  qed
  show ?thesis using 1 2 3 by blast
qed

theorem close_exactly_once_witness:
  "Serve 1 envStop New =
     Some (New\<lparr>wire := [REPLY_220 @ CRLF, REPLY_453 @ CRLF, REPLY_453 @ CRLF], nreads := 1,
                ConnClosed := 1, WgDone := 1\<rparr>) \<and>
   ConnClosed (New\<lparr>wire := [REPLY_220 @ CRLF, REPLY_453 @ CRLF, REPLY_453 @ CRLF], nreads := 1,
                ConnClosed := 1, WgDone := 1\<rparr>) = Suc (ConnClosed New) \<and>
   stopped envStop 0 \<and>
   flushErr (envStop\<lparr>flushErr := \<lambda>n. True\<rparr>) 0 \<and>
   Serve 0 (envStop\<lparr>flushErr := \<lambda>n. True\<rparr>) New \<noteq> None"
  using close_exactly_once[where k = 1 and env = envStop and s = New and n = 0 and s' =
      "New\<lparr>wire := [REPLY_220 @ CRLF, REPLY_453 @ CRLF, REPLY_453 @ CRLF], nreads := 1,
                ConnClosed := 1, WgDone := 1\<rparr>"]
    close_exactly_once[where k = 0 and env = "envStop\<lparr>flushErr := \<lambda>n. True\<rparr>" and s = New]
  by (simp add: Serve_def envStop_def New_def Transmit_def iteration_eq ReadString_def Close_def LF_def)

text \<open>
  C7. A terminated \<^verbatim>\<open>RSET\<close> line passes \<^verbatim>\<open>Valid\<close> in every state of the flags and
  leaves them unchanged; the iteration that reads it changes neither the flags nor the
  envelope, and when the shutdown signal is not raised it only counts the read and logs
  the verb.
\<close>

theorem rset_changes_nothing:
  assumes "HasSuffix c CRLF" and "Verb c = ''RSET''" and "reads env (nreads s) = c"
  shows "Valid v c = (v, True, None) \<and>
    Validity (fst (snd (iteration env (s, envl)))) = Validity s \<and>
    snd (snd (iteration env (s, envl))) = envl \<and>
    (\<not> stopped env (nreads s) \<longrightarrow>
       iteration env (s, envl) =
         (Continue, s\<lparr>nreads := Suc (nreads s), logs := logs s @ [''RSET'']\<rparr>, envl))"
proof -
  have v: "\<And>v. Valid v c = (v, True, None)"
    using Valid_passthrough[OF assms(1)] assms(2) by simp
  have d: "\<And>s. dispatch env s envl c = (Continue, Println s ''RSET'', envl)"
    using dispatch_passthrough[of c] assms(2) by simp
  have rd: "ReadString env (nreads s) = (c, False)"
    using ReadString_ok[of env "nreads s"] assms(1,3) by simp
  show ?thesis using v d rd assms(3)
    by (simp add: iteration_eq Let_def Println_def)
qed

theorem rset_changes_nothing_witness:
  "Valid ready cRSET = (ready, True, None) \<and>
   iteration (peer [cRSET]) (New\<lparr>Validity := ready\<rparr>, NewEnvelope\<lparr>OriginatorAddress := ''a@b.com''\<rparr>) =
     (Continue, New\<lparr>Validity := ready, nreads := 1, logs := [''RSET'']\<rparr>,
      NewEnvelope\<lparr>OriginatorAddress := ''a@b.com''\<rparr>)"
  using rset_changes_nothing[where c = cRSET and env = "peer [cRSET]" and v = ready
      and s = "New\<lparr>Validity := ready\<rparr>" and envl = "NewEnvelope\<lparr>OriginatorAddress := ''a@b.com''\<rparr>"]
  by (simp add: script_suffix script_verbs peer_def New_def)

text \<open>
  C8, as the specification words it, fails on two kinds of line: a colon that is the
  first byte of the trimmed line is not taken as the end of the verb, and a token ends at
  a space only, not at other white space.
\<close>

theorem verb_counterexample:
  "Verb ('':abcd efg'' @ CRLF) = '':ABCD'' \<and> Verb_spec ('':abcd efg'' @ CRLF) = '':'' \<and>
   Verb (''noop'' @ [CHR 0x09] @ ''x'' @ CRLF) = ''NOOP'' @ [CHR 0x09] @ ''X'' \<and>
   Verb_spec (''noop'' @ [CHR 0x09] @ ''x'' @ CRLF) = ''NOOP''"
  by code_simp

text \<open>
  C8, amended. On every line of US-ASCII bytes, \<^verbatim>\<open>Verb\<close> returns the line itself for
  the bare terminator; the upper-cased trimmed line when the trimmed line has length 4;
  when it is longer and has a colon that is not its first byte, the upper-cased prefix up
  to and including the first colon; when it is longer and has no colon, or starts with
  one, the upper-cased prefix before the first space; and the empty verb in every other
  case.
\<close>

theorem verb_cases:
  assumes "isASCII c"
  shows "Verb c =
     (if c = CRLF then CRLF
      else if length (TrimSpace c) = 4 then ToUpper (TrimSpace c)
      else if length (TrimSpace c) > 4 then
        (if CHR '':'' \<in> set (TrimSpace c) \<and> hd (TrimSpace c) \<noteq> CHR '':''
         then ToUpper (takeWhile (\<lambda>x. x \<noteq> CHR '':'') (TrimSpace c) @ '':'')
         else ToUpper (takeWhile (\<lambda>x. x \<noteq> CHR '' '') (TrimSpace c)))
      else [])"
  by (rule Verb_unfold)

theorem verb_cases_witness:
  "isASCII cNOOP \<and> Verb cNOOP = ''NOOP'' \<and> isASCII cRCPT \<and> Verb cRCPT = ''RCPT TO:''"
proof -
  have a: "isASCII cNOOP" "isASCII cRCPT" by code_simp+
  have n: "(if cNOOP = CRLF then CRLF
      else if length (TrimSpace cNOOP) = 4 then ToUpper (TrimSpace cNOOP)
      else if length (TrimSpace cNOOP) > 4 then
        (if CHR '':'' \<in> set (TrimSpace cNOOP) \<and> hd (TrimSpace cNOOP) \<noteq> CHR '':''
         then ToUpper (takeWhile (\<lambda>x. x \<noteq> CHR '':'') (TrimSpace cNOOP) @ '':'')
         else ToUpper (takeWhile (\<lambda>x. x \<noteq> CHR '' '') (TrimSpace cNOOP)))
      else []) = ''NOOP''"
    by code_simp
  have r: "(if cRCPT = CRLF then CRLF
      else if length (TrimSpace cRCPT) = 4 then ToUpper (TrimSpace cRCPT)
      else if length (TrimSpace cRCPT) > 4 then
        (if CHR '':'' \<in> set (TrimSpace cRCPT) \<and> hd (TrimSpace cRCPT) \<noteq> CHR '':''
         then ToUpper (takeWhile (\<lambda>x. x \<noteq> CHR '':'') (TrimSpace cRCPT) @ '':'')
         else ToUpper (takeWhile (\<lambda>x. x \<noteq> CHR '' '') (TrimSpace cRCPT)))
      else []) = ''RCPT TO:''"
    by code_simp
  have "Verb cNOOP = ''NOOP''" by (rule trans[OF verb_cases[OF a(1)] n])
  moreover have "Verb cRCPT = ''RCPT TO:''" by (rule trans[OF verb_cases[OF a(2)] r])
  ultimately show ?thesis using a by simp
qed

text \<open>
  C9. For the line \<^verbatim>\<open>RCPT TO:<user@sub.example.com>\<close> ended by CR LF, \<^verbatim>\<open>ValidRcpt\<close>
  succeeds and \<^verbatim>\<open>EmailAddress\<close> is \<^verbatim>\<open>user@sub.example.com\<close>.
\<close>

theorem address_round_trip:
  "ValidRcpt (''RCPT TO:<user@sub.example.com>'' @ CRLF) = (True, None) \<and>
   EmailAddress (''RCPT TO:<user@sub.example.com>'' @ CRLF) = ''user@sub.example.com''"
  by code_simp

text \<open>
  C10. For the bare terminator and for every terminated line whose verb is \<^verbatim>\<open>RSET\<close>,
  \<^verbatim>\<open>NOOP\<close>, \<^verbatim>\<open>HELP\<close>, \<^verbatim>\<open>VRFY\<close> or \<^verbatim>\<open>EXPN\<close>, the line passes \<^verbatim>\<open>Valid\<close> and its
  case of the switch writes nothing to the connection: it logs one entry and the loop
  goes on. The whole iteration that reads such a line (the shutdown signal not raised)
  leaves the connection untouched and goes on to the next read.
\<close>

theorem silent_commands:
  assumes "c = CRLF \<or> (HasSuffix c CRLF \<and> Verb c \<in> {''RSET'', ''NOOP'', ''HELP'', ''VRFY'', ''EXPN''})"
  shows "Valid v c = (v, True, None) \<and>
         dispatch env s envl c =
           (Continue, s\<lparr>logs := logs s @ [if c = CRLF then ''enter'' else Verb c]\<rparr>, envl) \<and>
         (reads env (nreads s) = c \<and> \<not> stopped env (nreads s) \<longrightarrow>
            iteration env (s, envl) =
              (Continue,
               s\<lparr>nreads := Suc (nreads s), logs := logs s @ [if c = CRLF then ''enter'' else Verb c]\<rparr>,
               envl) \<and>
            wire (fst (snd (iteration env (s, envl)))) = wire s)"
proof -
  have sfx: "HasSuffix c CRLF" using assms script_suffix(8) by blast
  have vb: "Verb c \<in> {CRLF, ''RSET'', ''NOOP'', ''HELP'', ''VRFY'', ''EXPN''}"
    using assms by (auto simp: Verb_def)
  have v: "\<And>v. Valid v c = (v, True, None)" using Valid_passthrough[OF sfx vb] by simp
  have d: "\<And>s. dispatch env s envl c = (Continue, Println s (if c = CRLF then ''enter'' else Verb c), envl)"
  proof (cases "c = CRLF")
    case True
    then have "Verb c = CRLF" by (simp add: Verb_def)
    then show "\<And>s. dispatch env s envl c = (Continue, Println s (if c = CRLF then ''enter'' else Verb c), envl)"
      using True dispatch_blank[of c] by simp
  next
    case False
    then show "\<And>s. dispatch env s envl c = (Continue, Println s (if c = CRLF then ''enter'' else Verb c), envl)"
      using assms dispatch_passthrough[of c] by simp
  qed
  have rd: "reads env (nreads s) = c \<Longrightarrow> ReadString env (nreads s) = (c, False)"
    using ReadString_ok[of env "nreads s"] sfx by simp
  have "iteration env (s, envl) =
           (Continue,
            s\<lparr>nreads := Suc (nreads s), logs := logs s @ [if c = CRLF then ''enter'' else Verb c]\<rparr>,
            envl)"
    if "reads env (nreads s) = c" "\<not> stopped env (nreads s)"
    using v d rd that by (simp add: iteration_eq Println_def)
  then show ?thesis using v d by (simp add: Println_def)
qed

theorem silent_commands_witness:
  "iteration (peer [cNOOP]) (New, NewEnvelope) = (Continue, New\<lparr>nreads := 1, logs := [''NOOP'']\<rparr>, NewEnvelope) \<and>
   iteration (peer [CRLF]) (New, NewEnvelope) = (Continue, New\<lparr>nreads := 1, logs := [''enter'']\<rparr>, NewEnvelope)"
proof -
  have n: "cNOOP \<noteq> CRLF" by code_simp
  show ?thesis
    using silent_commands[where c = cNOOP and env = "peer [cNOOP]" and s = New and envl = NewEnvelope]
      silent_commands[where c = CRLF and env = "peer [CRLF]" and s = New and envl = NewEnvelope] n
    by (simp add: script_suffix script_verbs peer_def New_def)
qed

end
